theory Spec2Isabelle
  imports Main "HOL-Library.Word"
begin

unbundle bit_operations_syntax

section \<open>Flash settings driver: data model\<close>

text \<open>
  The driver keeps a log of records in one of two flash swap areas.  Bytes are
  \<open>8 word\<close>, the 16-bit header fields are \<open>16 word\<close>; the 32-bit offsets
  (\<open>uint32_t\<close>) are natural numbers with the wrap-around \<open>mod 2 ^ 32\<close> written out
  wherever the source adds or subtracts.
\<close>

type_synonym byte = "8 word"
type_synonym region = "byte list"

datatype otError = OT_ERROR_NONE | OT_ERROR_NOT_FOUND | OT_ERROR_NO_BUFS

definition kFlashWordSize :: nat where
  "kFlashWordSize = 4"

subsection \<open>SwapHeader\<close>

definition kActive :: "32 word" where
  "kActive = 0xbe5cc5ee"

definition kInactive :: "32 word" where
  "kInactive = 0xbe5cc5ec"

text \<open>\<open>sizeof(SwapHeader)\<close>: one packed \<open>uint32_t\<close>.\<close>

definition SwapHeader_GetSize :: nat where
  "SwapHeader_GetSize = 4"

text \<open>The packed structures are stored little-endian.\<close>

definition le16 :: "16 word \<Rightarrow> byte list" where
  "le16 w = [ucast w, ucast (drop_bit 8 w)]"

definition of_le16 :: "byte \<Rightarrow> byte \<Rightarrow> 16 word" where
  "of_le16 lo hi = ucast lo OR push_bit 8 (ucast hi)"

definition le32 :: "32 word \<Rightarrow> byte list" where
  "le32 w = [ucast w, ucast (drop_bit 8 w), ucast (drop_bit 16 w), ucast (drop_bit 24 w)]"

definition of_le32 :: "byte list \<Rightarrow> 32 word" where
  "of_le32 bs = ucast (bs ! 0) OR push_bit 8 (ucast (bs ! 1))
     OR push_bit 16 (ucast (bs ! 2)) OR push_bit 24 (ucast (bs ! 3))"

definition SwapHeader_IsActive :: "byte list \<Rightarrow> bool" where
  "SwapHeader_IsActive bs = (of_le32 bs = kActive)"

subsection \<open>RecordHeader\<close>

record RecordHeader =
  mKey :: "16 word"
  mFlags :: "16 word"
  mLength :: "16 word"
  mReserved :: "16 word"

definition kFlagsInit :: "16 word" where
  "kFlagsInit = 0xffff"

definition kFlagAddBegin :: "16 word" where
  "kFlagAddBegin = push_bit 0 1"

definition kFlagAddComplete :: "16 word" where
  "kFlagAddComplete = push_bit 1 1"

definition kFlagDelete :: "16 word" where
  "kFlagDelete = push_bit 2 1"

definition kFlagFirst :: "16 word" where
  "kFlagFirst = push_bit 3 1"

definition kMaxDataSize :: nat where
  "kMaxDataSize = 256"

text \<open>\<open>sizeof(RecordHeader)\<close>: four packed \<open>uint16_t\<close>.\<close>

definition sizeof_RecordHeader :: nat where
  "sizeof_RecordHeader = 8"

definition RecordHeader_Init :: "16 word \<Rightarrow> bool \<Rightarrow> RecordHeader" where
  "RecordHeader_Init aKey aFirst =
     \<lparr> mKey = aKey,
       mFlags = (let f = kFlagsInit AND NOT kFlagAddBegin
                 in if aFirst then f AND NOT kFlagFirst else f),
       mLength = 0,
       mReserved = 0xffff \<rparr>"

text \<open>
  \<open>GetSize\<close>: \<open>mLength + 3\<close> is computed in \<open>int\<close>, masked with \<open>0xfffc\<close>, added to
  the header size and truncated to the \<open>uint16_t\<close> return type.
\<close>

definition GetSize :: "RecordHeader \<Rightarrow> 16 word" where
  "GetSize h = ucast ((8 :: 32 word) + ((ucast (mLength h) + 3) AND 0xfffc))"

definition IsValid :: "RecordHeader \<Rightarrow> bool" where
  "IsValid h = (mFlags h AND (kFlagAddComplete OR kFlagDelete) = kFlagDelete)"

definition IsAddBeginSet :: "RecordHeader \<Rightarrow> bool" where
  "IsAddBeginSet h = (mFlags h AND kFlagAddBegin = 0)"

definition IsAddCompleteSet :: "RecordHeader \<Rightarrow> bool" where
  "IsAddCompleteSet h = (mFlags h AND kFlagAddComplete = 0)"

definition SetAddCompleteFlag :: "RecordHeader \<Rightarrow> RecordHeader" where
  "SetAddCompleteFlag h = h\<lparr>mFlags := mFlags h AND NOT kFlagAddComplete\<rparr>"

definition IsDeleted :: "RecordHeader \<Rightarrow> bool" where
  "IsDeleted h = (mFlags h AND kFlagDelete = 0)"

definition SetDeleted :: "RecordHeader \<Rightarrow> RecordHeader" where
  "SetDeleted h = h\<lparr>mFlags := mFlags h AND NOT kFlagDelete\<rparr>"

definition IsFirst :: "RecordHeader \<Rightarrow> bool" where
  "IsFirst h = (mFlags h AND kFlagFirst = 0)"

definition SetFirst :: "RecordHeader \<Rightarrow> RecordHeader" where
  "SetFirst h = h\<lparr>mFlags := mFlags h AND NOT kFlagFirst\<rparr>"

text \<open>The eight bytes of a packed header, and a header read back from eight bytes.\<close>

definition encode_header :: "RecordHeader \<Rightarrow> byte list" where
  "encode_header h = le16 (mKey h) @ le16 (mFlags h) @ le16 (mLength h) @ le16 (mReserved h)"

definition decode_header :: "byte list \<Rightarrow> RecordHeader" where
  "decode_header bs =
     \<lparr> mKey = of_le16 (bs ! 0) (bs ! 1),
       mFlags = of_le16 (bs ! 2) (bs ! 3),
       mLength = of_le16 (bs ! 4) (bs ! 5),
       mReserved = of_le16 (bs ! 6) (bs ! 7) \<rparr>"

subsection \<open>The platform flash\<close>

text \<open>
  Modelled from the spec: the platform primitives \<open>otPlatFlashErase\<close>,
  \<open>otPlatFlashRead\<close>, \<open>otPlatFlashWrite\<close> and \<open>otPlatFlashGetSwapSize\<close> are external
  to the driver.  A swap area is its list of bytes; erasing sets every byte to all-ones;
  a write can only clear bits (the stored byte becomes the conjunction of the old byte
  and the written one).  A read beyond the area is given all-ones, a write beyond the
  area is dropped.
\<close>

definition otPlatFlashErase :: "region \<Rightarrow> region" where
  "otPlatFlashErase r = replicate (length r) 0xff"

definition otPlatFlashRead :: "region \<Rightarrow> nat \<Rightarrow> nat \<Rightarrow> byte list" where
  "otPlatFlashRead r aOffset aSize =
     map (\<lambda>i. if i < length r then r ! i else 0xff) [aOffset ..< aOffset + aSize]"

definition otPlatFlashWrite :: "region \<Rightarrow> nat \<Rightarrow> byte list \<Rightarrow> region" where
  "otPlatFlashWrite r aOffset aData =
     map (\<lambda>i. if aOffset \<le> i \<and> i < aOffset + length aData
               then r ! i AND aData ! (i - aOffset) else r ! i) [0 ..< length r]"

subsection \<open>The driver state\<close>

record Flash =
  area0 :: region
  area1 :: region
  mSwapSize :: nat
  mSwapUsed :: nat
  mSwapIndex :: nat
  mSwapHeaderSize :: nat

definition area :: "Flash \<Rightarrow> nat \<Rightarrow> region" where
  "area s i = (if i = 0 then area0 s else area1 s)"

definition area_update :: "nat \<Rightarrow> (region \<Rightarrow> region) \<Rightarrow> Flash \<Rightarrow> Flash" where
  "area_update i f s = (if i = 0 then s\<lparr>area0 := f (area0 s)\<rparr> else s\<lparr>area1 := f (area1 s)\<rparr>)"

definition ReadHeader :: "Flash \<Rightarrow> nat \<Rightarrow> nat \<Rightarrow> RecordHeader" where
  "ReadHeader s i aOffset = decode_header (otPlatFlashRead (area s i) aOffset sizeof_RecordHeader)"

definition u32 :: "nat \<Rightarrow> nat" where
  "u32 n = n mod 2 ^ 32"

section \<open>Flash::Get\<close>

text \<open>
  The out-parameters: \<open>aValue\<close> is \<open>None\<close> for \<open>nullptr\<close> and otherwise the caller's
  buffer; \<open>aValueLength\<close> is \<open>None\<close> for \<open>nullptr\<close> and otherwise the value it points
  to.  The counters \<open>index\<close> and \<open>aIndex\<close> are C \<open>int\<close>; they are integers here (the
  counter is incremented at most once per record of the area).  The loop has no
  bound of its own: a record whose \<open>GetSize\<close> is 0 keeps it at the same offset, so it
  is a partial function and \<open>None\<close> stands for a scan that does not return.
\<close>

partial_function (option) Get_loop ::
  "Flash \<Rightarrow> 16 word \<Rightarrow> int \<Rightarrow> 16 word option \<Rightarrow> nat \<Rightarrow> int \<Rightarrow>
   otError \<times> 16 word \<times> byte list option \<Rightarrow> (otError \<times> 16 word \<times> byte list option) option"
where
  "Get_loop s aKey aIndex aValueLength offset index acc =
     (if offset < mSwapUsed s then
        let record = ReadHeader s (mSwapIndex s) offset;
            next = u32 (offset + unat (GetSize record))
        in if mKey record \<noteq> aKey \<or> \<not> IsValid record then
             Get_loop s aKey aIndex aValueLength next index acc
           else
             let index = (if IsFirst record then 0 else index) in
             if index = aIndex then
               let aValue =
                 (case (snd (snd acc), aValueLength) of
                    (Some buf, Some len) \<Rightarrow>
                      let readLength = (if len > mLength record then mLength record else len)
                      in Some (otPlatFlashRead (area s (mSwapIndex s))
                                 (u32 (offset + sizeof_RecordHeader)) (unat readLength)
                               @ drop (unat readLength) buf)
                  | _ \<Rightarrow> snd (snd acc))
               in Get_loop s aKey aIndex aValueLength next (index + 1)
                    (OT_ERROR_NONE, mLength record, aValue)
             else Get_loop s aKey aIndex aValueLength next (index + 1) acc
      else Some acc)"

definition Get ::
  "Flash \<Rightarrow> 16 word \<Rightarrow> int \<Rightarrow> byte list option \<Rightarrow> 16 word option \<Rightarrow>
   (otError \<times> byte list option \<times> 16 word option) option"
where
  "Get s aKey aIndex aValue aValueLength =
     (case Get_loop s aKey aIndex aValueLength (mSwapHeaderSize s) 0
             (OT_ERROR_NOT_FOUND, 0, aValue) of
        None \<Rightarrow> None
      | Some (error, valueLength, aValue') \<Rightarrow>
          Some (error, aValue', map_option (\<lambda>_. valueLength) aValueLength))"

section \<open>Flash::Swap\<close>

partial_function (option) DoesValidRecordExist :: "Flash \<Rightarrow> nat \<Rightarrow> 16 word \<Rightarrow> bool option"
where
  "DoesValidRecordExist s aOffset aKey =
     (if aOffset < mSwapUsed s then
        let record = ReadHeader s (mSwapIndex s) aOffset
        in if IsValid record \<and> IsFirst record \<and> mKey record = aKey then Some True
           else DoesValidRecordExist s (u32 (aOffset + unat (GetSize record))) aKey
      else Some False)"

text \<open>
  The copy loop of \<open>Swap\<close>.  The state carries the destination area being written; the
  result is the state and the final \<open>dstOffset\<close>.  A record is copied through the
  264-byte \<open>Record\<close> buffer, \<open>GetSize\<close> bytes at a time.
\<close>

partial_function (option) Swap_loop :: "Flash \<Rightarrow> nat \<Rightarrow> nat \<Rightarrow> nat \<Rightarrow> (Flash \<times> nat) option"
where
  "Swap_loop s dstIndex srcOffset dstOffset =
     (if srcOffset < mSwapUsed s then
        let record = ReadHeader s (mSwapIndex s) srcOffset
        in if \<not> IsAddBeginSet record then Some (s, dstOffset)
           else
             let size = unat (GetSize record);
                 next = u32 (srcOffset + size)
             in case (if \<not> IsValid record then Some True
                      else DoesValidRecordExist s (u32 (srcOffset + size)) (mKey record)) of
                  None \<Rightarrow> None
                | Some skip \<Rightarrow>
                    if skip then Swap_loop s dstIndex next dstOffset
                    else
                      let data = otPlatFlashRead (area s (mSwapIndex s)) srcOffset size;
                          s' = area_update dstIndex (\<lambda>r. otPlatFlashWrite r dstOffset data) s
                      in Swap_loop s' dstIndex next (u32 (dstOffset + size))
      else Some (s, dstOffset))"

definition Swap :: "Flash \<Rightarrow> Flash option" where
  "Swap s =
     (let dstIndex = (if mSwapIndex s = 0 then 1 else 0);
          s1 = area_update dstIndex otPlatFlashErase s
      in case Swap_loop s1 dstIndex (mSwapHeaderSize s) (mSwapHeaderSize s) of
           None \<Rightarrow> None
         | Some (s2, dstOffset) \<Rightarrow>
             let s3 = area_update dstIndex (\<lambda>r. otPlatFlashWrite r 0 (le32 kActive)) s2;
                 s4 = area_update (mSwapIndex s) (\<lambda>r. otPlatFlashWrite r 0 (le32 kInactive)) s3
             in Some (s4\<lparr>mSwapIndex := dstIndex, mSwapUsed := dstOffset\<rparr>))"

section \<open>Flash::Add and Flash::Set\<close>

text \<open>
  The private \<open>Add(aKey, aFirst, aValue, aValueLength)\<close>.  The value is the list
  \<open>aValue\<close> and \<open>aValueLength\<close> its length.  The local \<open>Record\<close> is not initialised:
  \<open>uninit i\<close> is what its \<open>mData[i]\<close> holds before \<open>SetData\<close>, and this is what the
  padding bytes of the written record are.  A failed \<open>OT_ASSERT\<close> does not return:
  the result is \<open>None\<close>.
\<close>

definition Add_first ::
  "Flash \<Rightarrow> (nat \<Rightarrow> byte) \<Rightarrow> 16 word \<Rightarrow> bool \<Rightarrow> byte list \<Rightarrow> (otError \<times> Flash) option"
where
  "Add_first s uninit aKey aFirst aValue =
     (if \<not> length aValue \<le> kMaxDataSize then None
      else
        let record = (RecordHeader_Init aKey aFirst)\<lparr>mLength := of_nat (length aValue)\<rparr>;
            size = unat (GetSize record);
            mData = map (\<lambda>i. if i < length aValue then aValue ! i else uninit i)
                      [0 ..< size - sizeof_RecordHeader]
        in if \<not> u32 (mSwapSize s + 2 ^ 32 - size) \<ge> mSwapHeaderSize s then None
           else
             case (if u32 (mSwapSize s + 2 ^ 32 - size) < mSwapUsed s then
                     (case Swap s of
                        None \<Rightarrow> None
                      | Some s' \<Rightarrow> Some (s', u32 (mSwapSize s' + 2 ^ 32 - size) \<ge> mSwapUsed s'))
                   else Some (s, True)) of
               None \<Rightarrow> None
             | Some (s1, fits) \<Rightarrow>
                 if \<not> fits then Some (OT_ERROR_NO_BUFS, s1)
                 else
                 let s2 = area_update (mSwapIndex s1)
                            (\<lambda>r. otPlatFlashWrite r (mSwapUsed s1) (encode_header record @ mData)) s1;
                     record' = SetAddCompleteFlag record;
                     s3 = area_update (mSwapIndex s2)
                            (\<lambda>r. otPlatFlashWrite r (mSwapUsed s2) (encode_header record')) s2
                 in Some (OT_ERROR_NONE, s3\<lparr>mSwapUsed := u32 (mSwapUsed s3 + size)\<rparr>))"

definition Set ::
  "Flash \<Rightarrow> (nat \<Rightarrow> byte) \<Rightarrow> 16 word \<Rightarrow> byte list \<Rightarrow> (otError \<times> Flash) option"
where
  "Set s uninit aKey aValue = Add_first s uninit aKey True aValue"

text \<open>The public \<open>Add(aKey, aValue, aValueLength)\<close>, which probes with \<open>Get\<close>.\<close>

definition Add ::
  "Flash \<Rightarrow> (nat \<Rightarrow> byte) \<Rightarrow> 16 word \<Rightarrow> byte list \<Rightarrow> (otError \<times> Flash) option"
where
  "Add s uninit aKey aValue =
     (case Get s aKey 0 None None of
        None \<Rightarrow> None
      | Some (error, _, _) \<Rightarrow> Add_first s uninit aKey (error = OT_ERROR_NOT_FOUND) aValue)"

section \<open>Flash::Delete\<close>

partial_function (option) Delete_loop ::
  "Flash \<Rightarrow> 16 word \<Rightarrow> int \<Rightarrow> nat \<Rightarrow> int \<Rightarrow> otError \<Rightarrow> (otError \<times> Flash) option"
where
  "Delete_loop s aKey aIndex offset index error =
     (if offset < mSwapUsed s then
        let record = ReadHeader s (mSwapIndex s) offset
        in if mKey record \<noteq> aKey \<or> \<not> IsValid record then
             Delete_loop s aKey aIndex (u32 (offset + unat (GetSize record))) index error
           else
             let index = (if IsFirst record then 0 else index);
                 deleting = (aIndex = index \<or> aIndex = - 1);
                 record1 = (if deleting then SetDeleted record else record);
                 s1 = (if deleting then
                         area_update (mSwapIndex s)
                           (\<lambda>r. otPlatFlashWrite r offset (encode_header record1)) s
                       else s);
                 error1 = (if deleting then OT_ERROR_NONE else error);
                 promoting = (index = 1 \<and> aIndex = 0);
                 record2 = (if promoting then SetFirst record1 else record1);
                 s2 = (if promoting then
                         area_update (mSwapIndex s1)
                           (\<lambda>r. otPlatFlashWrite r offset (encode_header record2)) s1
                       else s1)
             in Delete_loop s2 aKey aIndex (u32 (offset + unat (GetSize record2))) (index + 1) error1
      else Some (error, s))"

definition Delete :: "Flash \<Rightarrow> 16 word \<Rightarrow> int \<Rightarrow> (otError \<times> Flash) option" where
  "Delete s aKey aIndex = Delete_loop s aKey aIndex (mSwapHeaderSize s) 0 OT_ERROR_NOT_FOUND"

section \<open>Flash::Wipe\<close>

definition Wipe :: "Flash \<Rightarrow> Flash" where
  "Wipe s =
     (let s1 = area_update 0 otPlatFlashErase s;
          s2 = area_update 0 (\<lambda>r. otPlatFlashWrite r 0 (le32 kActive)) s1
      in s2\<lparr>mSwapIndex := 0, mSwapHeaderSize := SwapHeader_GetSize,
            mSwapUsed := SwapHeader_GetSize\<rparr>)"

section \<open>Flash::Init and Flash::SanitizeFreeSpace\<close>

partial_function (option) SanitizeFreeSpace_loop :: "Flash \<Rightarrow> nat \<Rightarrow> bool option" where
  "SanitizeFreeSpace_loop s offset =
     (if offset < mSwapSize s then
        let temp = of_le32 (otPlatFlashRead (area s (mSwapIndex s)) offset 4)
        in if temp \<noteq> NOT 0 then Some True
           else SanitizeFreeSpace_loop s (u32 (offset + 4))
      else Some False)"

text \<open>\<open>mSwapUsed & 3\<close> is the remainder modulo 4.\<close>

definition SanitizeFreeSpace :: "Flash \<Rightarrow> Flash option" where
  "SanitizeFreeSpace s =
     (case (if mSwapUsed s mod 4 \<noteq> 0 then Some True
            else SanitizeFreeSpace_loop s (mSwapUsed s)) of
        None \<Rightarrow> None
      | Some sanitizeNeeded \<Rightarrow> if sanitizeNeeded then Swap s else Some s)"

text \<open>
  The first loop of \<open>Init\<close> looks for the active area; the flag of the result says
  that the loop left through \<open>Wipe\<close> and \<open>ExitNow\<close>.
\<close>

function Init_select :: "Flash \<Rightarrow> Flash \<times> bool" where
  "Init_select s =
     (if mSwapIndex s \<ge> 2 then (Wipe s, True)
      else if SwapHeader_IsActive (otPlatFlashRead (area s (mSwapIndex s)) 0 SwapHeader_GetSize)
      then (s\<lparr>mSwapHeaderSize := SwapHeader_GetSize\<rparr>, False)
      else Init_select (s\<lparr>mSwapIndex := mSwapIndex s + 1\<rparr>))"
  by pat_completeness auto
termination
  by (relation "measure (\<lambda>s. 2 - mSwapIndex s)") auto

text \<open>
  The second loop moves \<open>mSwapUsed\<close> over the records whose write has completed.
  \<open>mSwapSize - sizeof(record)\<close> is unsigned 32-bit arithmetic.
\<close>

partial_function (option) Init_scan :: "Flash \<Rightarrow> Flash option" where
  "Init_scan s =
     (if mSwapUsed s \<le> u32 (mSwapSize s + 2 ^ 32 - sizeof_RecordHeader) then
        let record = ReadHeader s (mSwapIndex s) (mSwapUsed s)
        in if \<not> IsAddBeginSet record then Some s
           else if \<not> IsAddCompleteSet record then Some s
           else Init_scan (s\<lparr>mSwapUsed := u32 (mSwapUsed s + unat (GetSize record))\<rparr>)
      else Some s)"

definition otPlatFlashGetSwapSize :: "Flash \<Rightarrow> nat" where
  "otPlatFlashGetSwapSize s = u32 (length (area0 s))"

definition Init :: "Flash \<Rightarrow> Flash option" where
  "Init s =
     (case Init_select (s\<lparr>mSwapSize := otPlatFlashGetSwapSize s, mSwapIndex := 0\<rparr>) of
        (s1, wiped) \<Rightarrow>
          if wiped then Some s1
          else
            (case Init_scan (s1\<lparr>mSwapUsed := mSwapHeaderSize s1\<rparr>) of
               None \<Rightarrow> None
             | Some s2 \<Rightarrow> SanitizeFreeSpace s2))"

declare Get_loop.simps [code]
declare DoesValidRecordExist.simps [code]
declare Swap_loop.simps [code]
declare Delete_loop.simps [code]
declare SanitizeFreeSpace_loop.simps [code]
declare Init_scan.simps [code]

section \<open>The log as a list of records\<close>

text \<open>
  The records between the swap header and \<open>mSwapUsed\<close>, read the way every loop of
  the driver walks them: a header, then \<open>GetSize\<close> minus eight bytes of data and
  padding.  \<open>parse\<close> gives the list of the records when each of them has been
  completely added (\<open>AddBegin\<close> and \<open>AddComplete\<close> both cleared), carries at most
  \<open>kMaxDataSize\<close> bytes and ends no later than \<open>used\<close>; otherwise it gives \<open>None\<close>.
\<close>

type_synonym rec = "RecordHeader \<times> byte list"

definition padded :: "nat \<Rightarrow> nat" where
  "padded n = (n + 3) div 4 * 4"

definition enc :: "rec \<Rightarrow> byte list" where
  "enc x = encode_header (fst x) @ snd x"

definition enc_all :: "rec list \<Rightarrow> byte list" where
  "enc_all xs = concat (map enc xs)"

definition rec_ok :: "rec \<Rightarrow> bool" where
  "rec_ok x =
     (IsAddBeginSet (fst x) \<and> IsAddCompleteSet (fst x) \<and>
      unat (mLength (fst x)) \<le> kMaxDataSize \<and>
      length (snd x) = padded (unat (mLength (fst x))))"

function parse :: "region \<Rightarrow> nat \<Rightarrow> nat \<Rightarrow> rec list option" where
  "parse r off used =
     (if off < used then
        let h = decode_header (otPlatFlashRead r off 8);
            n = padded (unat (mLength h))
        in if IsAddBeginSet h \<and> IsAddCompleteSet h \<and> unat (mLength h) \<le> kMaxDataSize \<and>
              off + 8 + n \<le> used \<and> used \<le> length r
           then map_option (Cons (h, otPlatFlashRead r (off + 8) n)) (parse r (off + 8 + n) used)
           else None
      else if off = used then Some [] else None)"
  by pat_completeness auto
termination
  by (relation "measure (\<lambda>(r, off, used). used - off)") auto

definition records :: "Flash \<Rightarrow> rec list" where
  "records s =
     (case parse (area s (mSwapIndex s)) (mSwapHeaderSize s) (mSwapUsed s) of
        Some xs \<Rightarrow> xs
      | None \<Rightarrow> [])"

definition erased_from :: "region \<Rightarrow> nat \<Rightarrow> bool" where
  "erased_from r n = (\<forall>b \<in> set (drop n r). b = 0xff)"

text \<open>
  \<open>log_ok\<close>: the in-memory fields describe the two areas and the active area holds a
  log of complete records up to \<open>mSwapUsed\<close>.  \<open>store_ok\<close> adds that the free space
  behind \<open>mSwapUsed\<close> is erased.
\<close>

definition log_ok :: "Flash \<Rightarrow> bool" where
  "log_ok s =
     (mSwapHeaderSize s = 4 \<and> mSwapIndex s < 2 \<and>
      length (area0 s) = mSwapSize s \<and> length (area1 s) = mSwapSize s \<and>
      mSwapSize s < 2 ^ 32 \<and> mSwapUsed s \<le> mSwapSize s \<and>
      parse (area s (mSwapIndex s)) 4 (mSwapUsed s) \<noteq> None)"

definition store_ok :: "Flash \<Rightarrow> bool" where
  "store_ok s = (log_ok s \<and> erased_from (area s (mSwapIndex s)) (mSwapUsed s))"

text \<open>The frontier invariant, as the specification words it.\<close>

definition frontier_invariant :: "Flash \<Rightarrow> bool" where
  "frontier_invariant s =
     (mSwapUsed s mod 4 = 0 \<and> mSwapHeaderSize s \<le> mSwapUsed s \<and> mSwapUsed s \<le> mSwapSize s \<and>
      erased_from (area s (mSwapIndex s)) (mSwapUsed s))"

subsection \<open>What the scans compute on the list\<close>

definition live :: "16 word \<Rightarrow> rec \<Rightarrow> bool" where
  "live K x = (mKey (fst x) = K \<and> IsValid (fst x))"

text \<open>The counter of a live record: 0 at a record marked first, else the running one.\<close>

definition bump :: "rec \<Rightarrow> int \<Rightarrow> int" where
  "bump x idx = (if IsFirst (fst x) then 0 else idx)"

fun counter :: "16 word \<Rightarrow> rec list \<Rightarrow> int \<Rightarrow> int" where
  "counter K [] idx = idx"
| "counter K (x # xs) idx = (if live K x then counter K xs (bump x idx + 1) else counter K xs idx)"

text \<open>The records at which the scan of \<open>Get\<close> finds its counter equal to the index.\<close>

fun hits :: "16 word \<Rightarrow> int \<Rightarrow> rec list \<Rightarrow> int \<Rightarrow> rec list" where
  "hits K i [] idx = []"
| "hits K i (x # xs) idx =
     (if live K x then (if bump x idx = i then [x] else []) @ hits K i xs (bump x idx + 1)
      else hits K i xs idx)"

definition copy_out :: "byte list option \<Rightarrow> 16 word option \<Rightarrow> rec \<Rightarrow> byte list option" where
  "copy_out aValue aValueLength x =
     (case (aValue, aValueLength) of
        (Some buf, Some len) \<Rightarrow>
          let readLength = (if len > mLength (fst x) then mLength (fst x) else len)
          in Some (take (unat readLength) (snd x) @ drop (unat readLength) buf)
      | _ \<Rightarrow> aValue)"

definition hit ::
  "16 word option \<Rightarrow> otError \<times> 16 word \<times> byte list option \<Rightarrow> rec \<Rightarrow>
   otError \<times> 16 word \<times> byte list option"
where
  "hit aValueLength acc x =
     (OT_ERROR_NONE, mLength (fst x), copy_out (snd (snd acc)) aValueLength x)"

text \<open>The headers after the scan of \<open>Delete\<close>, and whether it wrote a tombstone.\<close>

definition delete_step :: "int \<Rightarrow> rec \<Rightarrow> int \<Rightarrow> rec" where
  "delete_step i x idx =
     (let h1 = (if i = idx \<or> i = - 1 then SetDeleted (fst x) else fst x);
          h2 = (if idx = 1 \<and> i = 0 then SetFirst h1 else h1)
      in (h2, snd x))"

fun scan_delete :: "16 word \<Rightarrow> int \<Rightarrow> rec list \<Rightarrow> int \<Rightarrow> rec list" where
  "scan_delete K i [] idx = []"
| "scan_delete K i (x # xs) idx =
     (if live K x then delete_step i x (bump x idx) # scan_delete K i xs (bump x idx + 1)
      else x # scan_delete K i xs idx)"

fun tombstones :: "16 word \<Rightarrow> int \<Rightarrow> rec list \<Rightarrow> int \<Rightarrow> bool list" where
  "tombstones K i [] idx = []"
| "tombstones K i (x # xs) idx =
     (if live K x then (i = bump x idx \<or> i = - 1) # tombstones K i xs (bump x idx + 1)
      else False # tombstones K i xs idx)"

text \<open>
  The record at position \<open>j\<close> is one that \<open>Delete(K, i)\<close> is to tombstone: it is valid
  and has the key, and \<open>i\<close> is \<open>-1\<close> or the record's counter, which counts the valid
  records of the key and restarts at 0 at each one marked first.
\<close>

definition tombstoned :: "16 word \<Rightarrow> int \<Rightarrow> rec list \<Rightarrow> nat \<Rightarrow> bool" where
  "tombstoned K i xs j =
     (live K (xs ! j) \<and> (i = - 1 \<or> i = bump (xs ! j) (counter K (take j xs) 0)))"

text \<open>The records \<open>Swap\<close> copies.\<close>

definition shadowed :: "16 word \<Rightarrow> rec list \<Rightarrow> bool" where
  "shadowed K xs = (\<exists>x \<in> set xs. IsValid (fst x) \<and> IsFirst (fst x) \<and> mKey (fst x) = K)"

fun compact :: "rec list \<Rightarrow> rec list" where
  "compact [] = []"
| "compact (x # xs) =
     (if \<not> IsValid (fst x) \<or> shadowed (mKey (fst x)) xs then compact xs else x # compact xs)"

text \<open>The record \<open>Add\<close> leaves in the log: the committed header, the value and the padding.\<close>

definition new_record :: "(nat \<Rightarrow> byte) \<Rightarrow> 16 word \<Rightarrow> bool \<Rightarrow> byte list \<Rightarrow> rec" where
  "new_record uninit aKey aFirst aValue =
     (SetAddCompleteFlag ((RecordHeader_Init aKey aFirst)\<lparr>mLength := of_nat (length aValue)\<rparr>),
      map (\<lambda>i. if i < length aValue then aValue ! i else uninit i) [0 ..< padded (length aValue)])"

subsection \<open>Sequences of calls\<close>

text \<open>
  A caller's sequence of public operations, run one after the other on the state each
  leaves; the return codes are dropped.  \<open>None\<close>: some call does not return.
\<close>

datatype call =
  Call_Set "16 word" "byte list"
| Call_Add "16 word" "byte list"
| Call_Delete "16 word" int
| Call_Wipe

fun run_call :: "(nat \<Rightarrow> byte) \<Rightarrow> Flash \<Rightarrow> call \<Rightarrow> Flash option" where
  "run_call uninit s (Call_Set aKey aValue) = map_option snd (Set s uninit aKey aValue)"
| "run_call uninit s (Call_Add aKey aValue) = map_option snd (Add s uninit aKey aValue)"
| "run_call uninit s (Call_Delete aKey aIndex) = map_option snd (Delete s aKey aIndex)"
| "run_call uninit s Call_Wipe = Some (Wipe s)"

fun run_calls :: "(nat \<Rightarrow> byte) \<Rightarrow> Flash \<Rightarrow> call list \<Rightarrow> Flash option" where
  "run_calls uninit s [] = Some s"
| "run_calls uninit s (c # cs) =
     (case run_call uninit s c of None \<Rightarrow> None | Some s' \<Rightarrow> run_calls uninit s' cs)"

text \<open>A device with two areas of 64 bytes that have never been written by the driver.\<close>

definition blank :: Flash where
  "blank = \<lparr> area0 = replicate 64 0, area1 = replicate 64 0, mSwapSize = 64,
             mSwapUsed = 0, mSwapIndex = 0, mSwapHeaderSize = 0 \<rparr>"

section \<open>Lemmas\<close>

declare parse.simps [simp del]

lemma length_otPlatFlashRead [simp]: "length (otPlatFlashRead r off n) = n"
  by (simp add: otPlatFlashRead_def)

lemma length_otPlatFlashWrite [simp]: "length (otPlatFlashWrite r off bs) = length r"
  by (simp add: otPlatFlashWrite_def)

lemma length_otPlatFlashErase [simp]: "length (otPlatFlashErase r) = length r"
  by (simp add: otPlatFlashErase_def)

lemma read_in_range: "off + n \<le> length r \<Longrightarrow> otPlatFlashRead r off n = take n (drop off r)"
  by (rule nth_equalityI) (simp_all add: otPlatFlashRead_def)

lemma read_append: "n \<le> length xs \<Longrightarrow> otPlatFlashRead (pre @ xs @ post) (length pre) n = take n xs"
  by (simp add: read_in_range)

lemma write_in_range:
  "off + length bs \<le> length r \<Longrightarrow>
   otPlatFlashWrite r off bs = take off r @ map2 (AND) (take (length bs) (drop off r)) bs @ drop (off + length bs) r"
  apply (rule nth_equalityI)
   apply simp
  apply (simp add: otPlatFlashWrite_def nth_append)
  apply (auto simp: min_def)
  done

lemma write_append:
  "length bs = length xs \<Longrightarrow> otPlatFlashWrite (pre @ xs @ post) (length pre) bs = pre @ map2 (AND) xs bs @ post"
  by (simp add: write_in_range)

lemma ff_and [simp]: "(0xff :: byte) AND b = b"
proof -
  have "(0xff :: byte) = - 1" by simp
  then show ?thesis by (simp only: and.left_neutral)
qed

lemma and_erased: "length bs = n \<Longrightarrow> map2 (AND) (replicate n 0xff) bs = (bs :: byte list)"
  by (rule nth_equalityI) simp_all

lemma le16_and: "map2 (AND) (le16 a) (le16 b) = le16 (a AND b)"
  unfolding le16_def
  apply simp
  apply (rule conjI)
   apply (rule bit_word_eqI) apply (auto simp: bit_simps)[1]
   apply (rule bit_word_eqI) apply (auto simp: bit_simps)[1]
  done

lemma length_le16 [simp]: "length (le16 w) = 2"
  by (simp add: le16_def)

lemma length_encode_header [simp]: "length (encode_header h) = 8"
  by (simp add: encode_header_def)

lemma of_le16_le16: "of_le16 (ucast w) (ucast (drop_bit 8 w)) = (w :: 16 word)"
  unfolding of_le16_def
  by (rule bit_word_eqI) (auto simp: bit_simps)

lemma decode_encode_append [simp]: "decode_header (encode_header h @ bs) = h"
  by (simp add: decode_header_def encode_header_def le16_def of_le16_le16)

lemma decode_encode [simp]: "decode_header (encode_header h) = h"
  using decode_encode_append[of h "[]"] by simp

lemma encode_and:
  "map2 (AND) (encode_header h) (encode_header g) =
   encode_header \<lparr> mKey = mKey h AND mKey g, mFlags = mFlags h AND mFlags g,
                    mLength = mLength h AND mLength g, mReserved = mReserved h AND mReserved g \<rparr>"
  by (simp add: encode_header_def le16_and)

lemma encode_and_flags:
  "map2 (AND) (encode_header h) (encode_header (h\<lparr>mFlags := mFlags h AND m\<rparr>)) = encode_header (h\<lparr>mFlags := mFlags h AND m\<rparr>)"
  by (cases h) (simp add: encode_and word_bw_assocs)

lemma mask_fffc: "(0xfffc :: 32 word) = push_bit 2 (mask 14)"
  by (simp add: mask_eq_exp_minus_1)

lemma and_fffc: "(y :: 32 word) AND 0xfffc = push_bit 2 (take_bit 14 (drop_bit 2 y))"
  unfolding mask_fffc
  apply (rule bit_word_eqI)
  apply (auto simp: bit_simps)
   apply (subgoal_tac "Suc (Suc (n - 2)) = n"; simp)
  apply (subgoal_tac "Suc (Suc (n - 2)) = n"; simp)
  done

lemma unat_and_fffc: "unat ((y :: 32 word) AND 0xfffc) = 4 * ((unat y div 4) mod 16384)"
proof -
  have "unat (push_bit 2 (take_bit 14 (drop_bit 2 y))) = take_bit 32 (push_bit 2 (take_bit 14 (drop_bit 2 (unat y))))"
    by (simp only: unsigned_push_bit_eq unsigned_take_bit_eq unat_drop_bit_eq) simp
  also have "\<dots> = 4 * ((unat y div 4) mod 16384)"
    by (simp add: push_bit_eq_mult take_bit_eq_mod drop_bit_eq_div)
  finally show ?thesis unfolding and_fffc .
qed

lemma GetSize_unat: "unat (GetSize h) = (8 + 4 * (((unat (mLength h) + 3) div 4) mod 16384)) mod 65536"
proof -
  have "unat (mLength h) < 2 ^ 16"
    using unsigned_less[of "mLength h"] by simp
  then have a: "unat (ucast (mLength h) + 3 :: 32 word) = unat (mLength h) + 3"
    by (simp add: unat_word_ariths unsigned_ucast_eq take_bit_eq_mod)
  have z: "unat ((ucast (mLength h) + 3 :: 32 word) AND 0xfffc) = 4 * (((unat (mLength h) + 3) div 4) mod 16384)"
    by (simp only: unat_and_fffc a)
  have b: "unat ((8 :: 32 word) + Z) = (8 + unat Z) mod 2 ^ 32" for Z
    by (simp add: unat_word_ariths)
  have c: "unat (ucast W :: 16 word) = unat W mod 2 ^ 16" for W :: "32 word"
    by (simp add: unsigned_ucast_eq take_bit_eq_mod)
  show ?thesis
    unfolding GetSize_def c b z by simp
qed

lemma GetSize_small: "unat (mLength h) \<le> 256 \<Longrightarrow> unat (GetSize h) = 8 + padded (unat (mLength h))"
  by (simp add: GetSize_unat padded_def)

lemma padded_ge: "n \<le> padded n"
  unfolding padded_def by presburger

lemma padded_bound: "n \<le> 256 \<Longrightarrow> padded n \<le> 256"
  unfolding padded_def by presburger

lemma padded_mod4 [simp]: "padded n mod 4 = 0"
  unfolding padded_def by simp

lemma length_enc: "length (enc x) = 8 + length (snd x)"
  by (simp add: enc_def)

lemma size_rec_ok: "rec_ok x \<Longrightarrow> unat (GetSize (fst x)) = length (enc x)"
  by (simp add: rec_ok_def GetSize_small length_enc kMaxDataSize_def)

lemma enc_all_Nil [simp]: "enc_all [] = []"
  by (simp add: enc_all_def)

lemma enc_all_Cons [simp]: "enc_all (x # xs) = enc x @ enc_all xs"
  by (simp add: enc_all_def)

lemma enc_all_append [simp]: "enc_all (xs @ ys) = enc_all xs @ enc_all ys"
  by (simp add: enc_all_def)

lemma u32_id: "n < 2 ^ 32 \<Longrightarrow> u32 n = n"
  by (simp add: u32_def)

lemma header_at: "otPlatFlashRead (pre @ enc x @ rest) (length pre) 8 = encode_header (fst x)"
  using read_append[of 8 "enc x" pre rest] by (simp add: enc_def)

lemma data_at:
  "n \<le> length (snd x) \<Longrightarrow> otPlatFlashRead (pre @ enc x @ rest) (length pre + 8) n = take n (snd x)"
  using read_append[of n "snd x" "pre @ encode_header (fst x)" rest] by (simp add: enc_def)

lemma ReadHeader_at:
  "area s i = pre @ enc x @ rest \<Longrightarrow> ReadHeader s i (length pre) = fst x"
  by (simp add: ReadHeader_def sizeof_RecordHeader_def header_at)

lemma le16_of_le16: "le16 (of_le16 lo hi) = [lo, hi]"
  unfolding of_le16_def le16_def
  apply simp
  apply (rule conjI)
   apply (rule bit_word_eqI) apply (auto simp: bit_simps dest: bit_imp_le_length)[1]
   apply (rule bit_word_eqI) apply (auto simp: bit_simps dest: bit_imp_le_length)[1]
  done

lemma encode_decode: "length bs = 8 \<Longrightarrow> encode_header (decode_header bs) = bs"
  apply (rule nth_equalityI)
   apply simp
  apply (simp add: encode_header_def decode_header_def le16_of_le16)
  apply (auto simp: less_Suc_eq numeral_eq_Suc nth_Cons')
  done

lemma parse_layout:
  "parse r off used = Some xs \<Longrightarrow> used \<le> length r \<Longrightarrow>
   off \<le> used \<and> take (used - off) (drop off r) = enc_all xs \<and> list_all rec_ok xs"
proof (induction r off used arbitrary: xs rule: parse.induct)
  case (1 r off used)
  show ?case
  proof (cases "off < used")
    case False
    with "1.prems" show ?thesis by (simp add: parse.simps split: if_splits)
  next
    case True
    define h where "h = decode_header (otPlatFlashRead r off 8)"
    define n where "n = padded (unat (mLength h))"
    from True "1.prems"(1) have c: "IsAddBeginSet h" "IsAddCompleteSet h" "unat (mLength h) \<le> kMaxDataSize"
      "off + 8 + n \<le> used"
      and "\<exists>ys. parse r (off + 8 + n) used = Some ys \<and> xs = (h, otPlatFlashRead r (off + 8) n) # ys"
      by (auto simp: parse.simps[of r off used] h_def n_def Let_def split: if_splits)
    then obtain ys where ys: "parse r (off + 8 + n) used = Some ys" "xs = (h, otPlatFlashRead r (off + 8) n) # ys"
      by blast
    from "1.IH"[OF True h_def n_def _ ys(1) "1.prems"(2)] c "1.prems"(2)
    have ih: "take (used - (off + 8 + n)) (drop (off + 8 + n) r) = enc_all ys" "list_all rec_ok ys"
      by auto
    have r8: "otPlatFlashRead r off 8 = take 8 (drop off r)"
      using c(4) "1.prems"(2) by (simp add: read_in_range)
    have e: "encode_header h = take 8 (drop off r)"
      unfolding h_def by (simp add: encode_decode r8[symmetric])
    have d: "otPlatFlashRead r (off + 8) n = take n (drop (off + 8) r)"
      using c(4) "1.prems"(2) by (simp add: read_in_range)
    have split: "used - off = 8 + (n + (used - (off + 8 + n)))"
      using c(4) by simp
    have "take (used - off) (drop off r) =
          take 8 (drop off r) @ take n (drop (off + 8) r) @ take (used - (off + 8 + n)) (drop (off + 8 + n) r)"
      unfolding split take_add by (simp add: add.commute add.left_commute)
    then have "take (used - off) (drop off r) = enc_all xs"
      by (simp add: ys(2) enc_def e d ih(1))
    moreover have "rec_ok (h, otPlatFlashRead r (off + 8) n)"
      using c by (simp add: rec_ok_def n_def)
    ultimately show ?thesis using True ih(2) ys(2) by simp
  qed
qed

lemma parse_of_layout:
  "list_all rec_ok xs \<Longrightarrow>
   parse (pre @ enc_all xs @ post) (length pre) (length pre + length (enc_all xs)) = Some xs"
proof (induction xs arbitrary: pre)
  case Nil
  show ?case by (simp add: parse.simps)
next
  case (Cons x xs)
  then have ok: "rec_ok x" and oks: "list_all rec_ok xs" by simp_all
  let ?r = "pre @ enc x @ enc_all xs @ post"
  have h: "decode_header (otPlatFlashRead ?r (length pre) 8) = fst x"
    using header_at[of pre x "enc_all xs @ post"] by simp
  have n: "padded (unat (mLength (fst x))) = length (snd x)"
    using ok by (simp add: rec_ok_def)
  have d: "otPlatFlashRead ?r (length pre + 8) (length (snd x)) = snd x"
    using data_at[of "length (snd x)" x pre "enc_all xs @ post"] by simp
  have ih: "parse ?r (length pre + 8 + length (snd x))
              (length pre + (8 + length (snd x) + length (enc_all xs))) = Some xs"
    using Cons.IH[OF oks, of "pre @ enc x"] by (simp add: length_enc add.assoc)
  have "parse ?r (length pre) (length pre + (8 + length (snd x) + length (enc_all xs))) = Some xs'"
    if "xs' = x # xs" for xs'
    apply (subst parse.simps)
    using ok that
    apply (simp add: h n d ih Let_def rec_ok_def length_enc)
    done
  then show ?case by (simp add: length_enc)
qed



lemma erased_from_iff: "erased_from r n = (drop n r = replicate (length r - n) 0xff)"
  unfolding erased_from_def
  by (metis (no_types, lifting) in_set_replicate length_drop replicate_eqI)

lemma log_ok_layout:
  assumes "log_ok s"
  obtains pre post where
    "area s (mSwapIndex s) = pre @ enc_all (records s) @ post" "length pre = 4"
    "list_all rec_ok (records s)" "mSwapUsed s = 4 + length (enc_all (records s))"
    "post = drop (mSwapUsed s) (area s (mSwapIndex s))"
proof -
  let ?r = "area s (mSwapIndex s)"
  from assms obtain xs where p: "parse ?r 4 (mSwapUsed s) = Some xs"
    and hs: "mSwapHeaderSize s = 4" and le: "mSwapUsed s \<le> length ?r"
    by (auto simp: log_ok_def area_def)
  then have rs: "records s = xs" by (simp add: records_def)
  from parse_layout[OF p le] have l: "4 \<le> mSwapUsed s"
    "take (mSwapUsed s - 4) (drop 4 ?r) = enc_all xs" "list_all rec_ok xs" by auto
  have "?r = take 4 ?r @ take (mSwapUsed s - 4) (drop 4 ?r) @ drop (mSwapUsed s) ?r"
    using l(1) le by (metis append_take_drop_id drop_drop le_add_diff_inverse2)
  then have a: "?r = take 4 ?r @ enc_all (records s) @ drop (mSwapUsed s) ?r"
    by (simp only: l(2) rs)
  have b: "length (take 4 ?r) = 4" using l(1) le by simp
  have c: "mSwapUsed s = 4 + length (enc_all (records s))"
    using l(1) le arg_cong[OF l(2), of length] by (simp add: rs)
  show ?thesis
    using that[OF a b _ c] l(3) rs by simp
qed

lemma Get_loop_layout:
  assumes "area s (mSwapIndex s) = pre @ enc_all xs @ post" "list_all rec_ok xs"
    "mSwapUsed s = length pre + length (enc_all xs)" "mSwapUsed s < 2 ^ 32"
  shows "Get_loop s K i len (length pre) idx acc = Some (foldl (hit len) acc (hits K i xs idx))"
  using assms
proof (induction xs arbitrary: pre idx acc)
  case Nil
  then show ?case by (subst Get_loop.simps) simp
next
  case (Cons x xs)
  then have ok: "rec_ok x" and oks: "list_all rec_ok xs" by simp_all
  have ar: "area s (mSwapIndex s) = pre @ enc x @ (enc_all xs @ post)"
    using Cons.prems(1) by simp
  have h: "ReadHeader s (mSwapIndex s) (length pre) = fst x"
    by (rule ReadHeader_at[OF ar])
  have lt: "length pre < mSwapUsed s"
    using Cons.prems(3) by (simp add: length_enc)
  have nx: "u32 (length pre + unat (GetSize (fst x))) = length pre + length (enc x)"
    using Cons.prems(3,4) by (simp add: size_rec_ok[OF ok] u32_id)
  have ih: "Get_loop s K i len (length pre + length (enc x)) idx' acc' = Some (foldl (hit len) acc' (hits K i xs idx'))" for idx' acc'
    using Cons.IH[of "pre @ enc x"] Cons.prems oks by simp
  have o8: "u32 (length pre + sizeof_RecordHeader) = length pre + 8"
    using Cons.prems(3,4) by (simp add: sizeof_RecordHeader_def u32_id length_enc)
  have rd: "otPlatFlashRead (area s (mSwapIndex s)) (length pre + 8)
              (unat (if mLength (fst x) < l then mLength (fst x) else l)) =
            take (unat (if mLength (fst x) < l then mLength (fst x) else l)) (snd x)" for l
  proof -
    have "unat (if mLength (fst x) < l then mLength (fst x) else l) \<le> unat (mLength (fst x))"
      by (simp add: word_le_nat_alt word_less_nat_alt)
    also have "\<dots> \<le> length (snd x)"
      using ok padded_ge[of "unat (mLength (fst x))"] by (simp add: rec_ok_def)
    finally show ?thesis unfolding ar by (rule data_at)
  qed
  show ?case
    apply (subst Get_loop.simps)
    apply (simp only: h nx lt if_True Let_def o8)
    apply (simp add: ih live_def bump_def hit_def copy_out_def rd Let_def split: option.splits)
    done
qed




lemma area_area_update:
  "area (area_update i f s) j = (if (i = 0) = (j = 0) then f (area s j) else area s j)"
  by (auto simp: area_def area_update_def)

lemma area_update_fields [simp]:
  "mSwapSize (area_update i f s) = mSwapSize s"
  "mSwapUsed (area_update i f s) = mSwapUsed s"
  "mSwapIndex (area_update i f s) = mSwapIndex s"
  "mSwapHeaderSize (area_update i f s) = mSwapHeaderSize s"
  by (simp_all add: area_update_def)

lemma area_fields [simp]:
  "area (s\<lparr>mSwapUsed := u\<rparr>) i = area s i"
  "area (s\<lparr>mSwapIndex := j\<rparr>) i = area s i"
  "area (s\<lparr>mSwapSize := n\<rparr>) i = area s i"
  "area (s\<lparr>mSwapHeaderSize := m\<rparr>) i = area s i"
  by (simp_all add: area_def)

lemma area_update_twice [simp]:
  "area_update i f (area_update i g s) = area_update i (f \<circ> g) s"
  by (simp add: area_update_def)

lemma store_okI:
  assumes "mSwapHeaderSize s = 4" "mSwapIndex s < 2"
    "length (area0 s) = mSwapSize s" "length (area1 s) = mSwapSize s" "mSwapSize s < 2 ^ 32"
    "area s (mSwapIndex s) = pre @ enc_all xs @ replicate k 0xff" "length pre = 4"
    "list_all rec_ok xs" "mSwapUsed s = 4 + length (enc_all xs)"
  shows "store_ok s \<and> records s = xs"
proof -
  let ?r = "area s (mSwapIndex s)"
  have p: "parse ?r 4 (mSwapUsed s) = Some xs"
    using parse_of_layout[OF assms(8), of pre "replicate k 0xff"] assms(6,7,9) by simp
  have len: "length ?r = mSwapSize s"
    using assms(3,4) by (simp add: area_def)
  then have le: "mSwapUsed s \<le> mSwapSize s"
    using assms(6,7,9) by (metis length_append add.assoc le_add1)
  have "drop (mSwapUsed s) ?r = replicate k 0xff"
    using assms(6,7,9) by simp
  then have "erased_from ?r (mSwapUsed s)"
    by (simp add: erased_from_def)
  then show ?thesis
    using assms(1-5) p le by (simp add: store_ok_def log_ok_def records_def)
qed

lemma store_ok_layout:
  assumes "store_ok s"
  obtains pre k where
    "area s (mSwapIndex s) = pre @ enc_all (records s) @ replicate k 0xff" "length pre = 4"
    "list_all rec_ok (records s)" "mSwapUsed s = 4 + length (enc_all (records s))"
    "mSwapUsed s + k = mSwapSize s"
proof -
  from assms have l: "log_ok s" and e: "erased_from (area s (mSwapIndex s)) (mSwapUsed s)"
    by (simp_all add: store_ok_def)
  from l have len: "length (area s (mSwapIndex s)) = mSwapSize s" "mSwapUsed s \<le> mSwapSize s"
    by (simp_all add: log_ok_def area_def)
  from log_ok_layout[OF l] obtain pre post where
    a: "area s (mSwapIndex s) = pre @ enc_all (records s) @ post" "length pre = 4"
    "list_all rec_ok (records s)" "mSwapUsed s = 4 + length (enc_all (records s))"
    "post = drop (mSwapUsed s) (area s (mSwapIndex s))" by metis
  from e a(5) len have "post = replicate (mSwapSize s - mSwapUsed s) 0xff"
    by (simp add: erased_from_iff)
  with a len show ?thesis
    using that[of pre "mSwapSize s - mSwapUsed s"] by simp
qed




lemma bit_flag: "bit (push_bit k 1 :: 16 word) m = (m = k \<and> k < 16)"
  by (auto simp: bit_exp_iff possible_bit_word)

lemma test_flag: "((w :: 16 word) AND push_bit k 1 = 0) = (\<not> bit w k)"
  by (simp only: bit_iff_and_push_bit_not_eq_0 not_not)

lemma clear_flag: "bit ((w :: 16 word) AND NOT (push_bit k 1)) n = (bit w n \<and> n \<noteq> k)"
  by (auto simp: bit_and_iff bit_not_iff bit_exp_iff possible_bit_word dest: bit_imp_le_length)

lemma test_two_flags:
  assumes "j \<noteq> k" "j < 16" "k < 16"
  shows "((w :: 16 word) AND (push_bit j 1 OR push_bit k 1) = push_bit k 1) = (\<not> bit w j \<and> bit w k)"
proof
  assume "w AND (push_bit j 1 OR push_bit k 1) = push_bit k 1"
  then have e: "bit (w AND (push_bit j 1 OR push_bit k 1)) n = bit (push_bit k 1 :: 16 word) n" for n
    by simp
  from e[of j] e[of k] assms show "\<not> bit w j \<and> bit w k"
    by (simp only: bit_and_iff bit_or_iff bit_flag) auto
next
  assume a: "\<not> bit w j \<and> bit w k"
  show "w AND (push_bit j 1 OR push_bit k 1) = push_bit k 1"
    by (rule bit_word_eqI) (use a assms in \<open>auto simp only: bit_and_iff bit_or_iff bit_flag\<close>)
qed

lemma IsValid_bits: "IsValid h = (\<not> bit (mFlags h) 1 \<and> bit (mFlags h) 2)"
  unfolding IsValid_def kFlagAddComplete_def kFlagDelete_def
  by (rule test_two_flags) simp_all

lemma flags_tests: 
  "IsAddBeginSet h = (\<not> bit (mFlags h) 0)"
  "IsAddCompleteSet h = (\<not> bit (mFlags h) 1)"
  "IsDeleted h = (\<not> bit (mFlags h) 2)"
  "IsFirst h = (\<not> bit (mFlags h) 3)"
  unfolding IsAddBeginSet_def IsAddCompleteSet_def IsDeleted_def IsFirst_def kFlagAddBegin_def kFlagAddComplete_def kFlagDelete_def kFlagFirst_def
  by (rule test_flag)+

lemma mFlags_sets:
  "mFlags (SetDeleted h) = mFlags h AND NOT (push_bit 2 1)"
  "mFlags (SetFirst h) = mFlags h AND NOT (push_bit 3 1)"
  "mFlags (SetAddCompleteFlag h) = mFlags h AND NOT (push_bit 1 1)"
  by (simp_all add: SetDeleted_def SetFirst_def SetAddCompleteFlag_def kFlagAddComplete_def kFlagDelete_def kFlagFirst_def)

lemma flags_sets:
  "bit (mFlags (SetDeleted h)) n = (bit (mFlags h) n \<and> n \<noteq> 2)"
  "bit (mFlags (SetFirst h)) n = (bit (mFlags h) n \<and> n \<noteq> 3)"
  "bit (mFlags (SetAddCompleteFlag h)) n = (bit (mFlags h) n \<and> n \<noteq> 1)"
  by (simp_all only: mFlags_sets clear_flag)

lemma mFlags_Init:
  "mFlags (RecordHeader_Init k True) = ((-1) AND NOT (push_bit 0 1)) AND NOT (push_bit 3 1)"
  "mFlags (RecordHeader_Init k False) = (-1) AND NOT (push_bit 0 1)"
  by (simp_all add: RecordHeader_Init_def kFlagsInit_def kFlagAddBegin_def kFlagFirst_def)

lemma flags_init:
  "bit (mFlags (RecordHeader_Init k True)) n = (n < 16 \<and> n \<noteq> 0 \<and> n \<noteq> 3)"
  "bit (mFlags (RecordHeader_Init k False)) n = (n < 16 \<and> n \<noteq> 0)"
  by (simp_all only: mFlags_Init clear_flag bit_minus_1_iff possible_bit_word conj_assoc) simp_all

lemma other_fields [simp]:
  "mKey (SetDeleted h) = mKey h" "mLength (SetDeleted h) = mLength h"
  "mKey (SetFirst h) = mKey h" "mLength (SetFirst h) = mLength h"
  "mKey (SetAddCompleteFlag h) = mKey h" "mLength (SetAddCompleteFlag h) = mLength h"
  "mKey (RecordHeader_Init k f) = k"
  by (simp_all add: SetDeleted_def SetFirst_def SetAddCompleteFlag_def RecordHeader_Init_def)

lemma GetSize_cong: "mLength h = mLength g \<Longrightarrow> GetSize h = GetSize g"
  by (simp add: GetSize_def)

text \<open>The header of a new record.\<close>

lemma new_record_header:
  "mKey (fst (new_record u K f V)) = K"
  "IsAddBeginSet (fst (new_record u K f V))"
  "IsAddCompleteSet (fst (new_record u K f V))"
  "IsValid (fst (new_record u K f V))"
  "IsFirst (fst (new_record u K f V)) = f"
  "mLength (fst (new_record u K f V)) = of_nat (length V)"
  "length (snd (new_record u K f V)) = padded (length V)"
proof -
  have fl: "mFlags ((RecordHeader_Init K f)\<lparr>mLength := of_nat (length V)\<rparr>) = mFlags (RecordHeader_Init K f)"
    by simp
  have b: "bit (mFlags (fst (new_record u K f V))) n = (n < 16 \<and> n \<noteq> 0 \<and> n \<noteq> 1 \<and> (f \<longrightarrow> n \<noteq> 3))" for n
    by (cases f) (auto simp: new_record_def flags_sets fl flags_init)
  show "mKey (fst (new_record u K f V)) = K" "mLength (fst (new_record u K f V)) = of_nat (length V)"
    "length (snd (new_record u K f V)) = padded (length V)"
    by (simp_all add: new_record_def SetAddCompleteFlag_def RecordHeader_Init_def)
  show "IsAddBeginSet (fst (new_record u K f V))" "IsAddCompleteSet (fst (new_record u K f V))"
    "IsValid (fst (new_record u K f V))" "IsFirst (fst (new_record u K f V)) = f"
    by (simp_all add: flags_tests IsValid_bits b)
qed

lemma unat_of_nat_len: "n \<le> 256 \<Longrightarrow> unat (of_nat n :: 16 word) = n"
  by (simp add: unat_of_nat take_bit_eq_mod)

lemma new_record_ok: "length V \<le> 256 \<Longrightarrow> rec_ok (new_record u K f V)"
  by (simp add: rec_ok_def new_record_header unat_of_nat_len kMaxDataSize_def)




lemma Add_write:
  fixes t :: Flash and V :: "byte list" and K :: "16 word" and f :: bool and u :: "nat \<Rightarrow> byte"
  defines "rcd \<equiv> (RecordHeader_Init K f)\<lparr>mLength := of_nat (length V)\<rparr>"
  defines "sz \<equiv> unat (GetSize rcd)"
  defines "mData \<equiv> map (\<lambda>i. if i < length V then V ! i else u i) [0 ..< sz - sizeof_RecordHeader]"
  defines "s2 \<equiv> area_update (mSwapIndex t)
                   (\<lambda>r. otPlatFlashWrite r (mSwapUsed t) (encode_header rcd @ mData)) t"
  defines "s3 \<equiv> area_update (mSwapIndex s2)
                   (\<lambda>r. otPlatFlashWrite r (mSwapUsed s2) (encode_header (SetAddCompleteFlag rcd))) s2"
  defines "s' \<equiv> s3\<lparr>mSwapUsed := u32 (mSwapUsed s3 + sz)\<rparr>"
  assumes ok: "store_ok t" and len: "length V \<le> 256"
    and fits: "mSwapUsed t + 8 + padded (length V) \<le> mSwapSize t"
  shows "store_ok s' \<and> records s' = records t @ [new_record u K f V] \<and>
         mSwapUsed s' = mSwapUsed t + 8 + padded (length V) \<and>
         mSwapIndex s' = mSwapIndex t \<and> mSwapSize s' = mSwapSize t \<and>
         area s' (1 - mSwapIndex t) = area t (1 - mSwapIndex t)"
proof -
  from store_ok_layout[OF ok] obtain pre k where
    a: "area t (mSwapIndex t) = pre @ enc_all (records t) @ replicate k 0xff" "length pre = 4"
    "list_all rec_ok (records t)" "mSwapUsed t = 4 + length (enc_all (records t))"
    "mSwapUsed t + k = mSwapSize t" by metis
  from ok have f: "mSwapHeaderSize t = 4" "mSwapIndex t < 2" "length (area0 t) = mSwapSize t"
    "length (area1 t) = mSwapSize t" "mSwapSize t < 2 ^ 32"
    by (simp_all add: store_ok_def log_ok_def)
  have szeq: "sz = 8 + padded (length V)"
    unfolding sz_def rcd_def by (simp add: GetSize_small unat_of_nat_len len)
  have md: "mData = snd (new_record u K f V)"
    by (simp add: mData_def szeq new_record_def sizeof_RecordHeader_def)
  have hd: "SetAddCompleteFlag rcd = fst (new_record u K f V)"
    by (simp add: rcd_def new_record_def)
  define k' where "k' = k - sz"
  have k: "k = sz + k'" using fits a(5) szeq by (simp add: k'_def)
  let ?pre = "pre @ enc_all (records t)"
  have ulen: "mSwapUsed t = length ?pre" using a(2,4) by simp
  have w1: "otPlatFlashWrite (area t (mSwapIndex t)) (mSwapUsed t) (encode_header rcd @ mData)
            = ?pre @ (encode_header rcd @ mData) @ replicate k' 0xff"
  proof -
    have "length (encode_header rcd @ mData) = sz"
      by (simp add: md new_record_header szeq)
    then have "otPlatFlashWrite (?pre @ replicate sz 0xff @ replicate k' 0xff) (length ?pre) (encode_header rcd @ mData)
        = ?pre @ map2 (AND) (replicate sz 0xff) (encode_header rcd @ mData) @ replicate k' 0xff"
      by (intro write_append) simp
    also have "map2 (AND) (replicate sz 0xff) (encode_header rcd @ mData) = encode_header rcd @ mData"
      by (rule and_erased) (simp add: md new_record_header szeq)
    finally show ?thesis
      unfolding a(1) ulen k by (simp add: replicate_add)
  qed
  have w2: "otPlatFlashWrite (pre @ enc_all (records t) @ encode_header rcd @ mData @ replicate k' 0xff) (mSwapUsed t)
              (encode_header (SetAddCompleteFlag rcd))
            = ?pre @ enc (new_record u K f V) @ replicate k' 0xff"
  proof -
    have "otPlatFlashWrite (?pre @ encode_header rcd @ (mData @ replicate k' 0xff)) (length ?pre)
              (encode_header (SetAddCompleteFlag rcd))
          = ?pre @ map2 (AND) (encode_header rcd) (encode_header (SetAddCompleteFlag rcd)) @ (mData @ replicate k' 0xff)"
      by (intro write_append) simp
    also have "map2 (AND) (encode_header rcd) (encode_header (SetAddCompleteFlag rcd)) = encode_header (SetAddCompleteFlag rcd)"
      unfolding SetAddCompleteFlag_def by (rule encode_and_flags)
    finally have "otPlatFlashWrite (?pre @ encode_header rcd @ (mData @ replicate k' 0xff)) (length ?pre)
              (encode_header (SetAddCompleteFlag rcd)) = ?pre @ encode_header (SetAddCompleteFlag rcd) @ (mData @ replicate k' 0xff)" .
    then show ?thesis
      unfolding ulen enc_def hd[symmetric] md[symmetric] fst_conv snd_conv by simp
  qed
  have ar: "area s' (mSwapIndex s') = pre @ enc_all (records t @ [new_record u K f V]) @ replicate k' 0xff"
    by (simp add: s'_def s3_def s2_def area_area_update w1 w2)
  have us: "mSwapUsed s' = mSwapUsed t + sz"
    using fits f(5) by (simp add: s'_def s3_def s2_def szeq u32_id)
  have oth: "area s' (1 - mSwapIndex t) = area t (1 - mSwapIndex t)"
    using f(2) by (auto simp: s'_def s3_def s2_def area_area_update)
  have lens: "length (area0 s') = mSwapSize t" "length (area1 s') = mSwapSize t"
    using f(3,4) by (auto simp: s'_def s3_def s2_def area_update_def)
  have "store_ok s' \<and> records s' = records t @ [new_record u K f V]"
    apply (rule store_okI[where pre=pre and k=k'])
    using f a(2,3,4) lens us
            apply (simp_all add: ar new_record_ok len)
       apply (simp_all add: s'_def s3_def s2_def length_enc new_record_header szeq)
    done
  then show ?thesis
    using us szeq oth by (simp add: s'_def s3_def s2_def)
qed




lemma store_ok_used_ge: "store_ok s \<Longrightarrow> 4 \<le> mSwapUsed s"
  by (erule store_ok_layout) simp

lemma u32_sub: "b \<le> a \<Longrightarrow> a < 2 ^ 32 \<Longrightarrow> u32 (a + 2 ^ 32 - b) = a - b"
  by (simp add: u32_def mod_if)

lemma Add_first_size:
  "length V \<le> 256 \<Longrightarrow>
   unat (GetSize ((RecordHeader_Init K f)\<lparr>mLength := of_nat (length V)\<rparr>)) = 8 + padded (length V)"
  by (simp add: GetSize_small unat_of_nat_len)

lemma Add_first_fits:
  assumes ok: "store_ok s" and len: "length V \<le> 256"
    and fits: "mSwapUsed s + 8 + padded (length V) \<le> mSwapSize s"
  shows "\<exists>s'. Add_first s u K f V = Some (OT_ERROR_NONE, s') \<and>
         store_ok s' \<and> records s' = records s @ [new_record u K f V] \<and>
         mSwapUsed s' = mSwapUsed s + 8 + padded (length V) \<and>
         mSwapIndex s' = mSwapIndex s \<and> mSwapSize s' = mSwapSize s \<and>
         area s' (1 - mSwapIndex s) = area s (1 - mSwapIndex s)"
proof -
  from ok have f: "mSwapHeaderSize s = 4" "mSwapSize s < 2 ^ 32"
    by (simp_all add: store_ok_def log_ok_def)
  note ge = store_ok_used_ge[OF ok]
  define sz where "sz = 8 + padded (length V)"
  have sz: "unat (GetSize ((RecordHeader_Init K f)\<lparr>mLength := of_nat (length V)\<rparr>)) = sz"
    by (simp add: Add_first_size len sz_def)
  have c1: "length V \<le> kMaxDataSize" using len by (simp add: kMaxDataSize_def)
  have c2: "u32 (mSwapSize s + 2 ^ 32 - sz) = mSwapSize s - sz"
    using fits f(2) by (intro u32_sub) (simp_all add: sz_def)
  have c3: "mSwapHeaderSize s \<le> mSwapSize s - sz" "\<not> mSwapSize s - sz < mSwapUsed s"
    using fits ge f(1) by (simp_all add: sz_def)
  note aw = Add_write[OF ok len fits, of K f u, unfolded sz]
  have c4: "u32 (mSwapUsed s + (8 + padded (length V))) = mSwapUsed s + (8 + padded (length V))"
    using fits f(2) by (intro u32_id) simp
  show ?thesis
    unfolding Add_first_def Let_def sz c2
    using aw c1 c3 by (simp add: sz_def c4)
qed




lemma DoesValidRecordExist_layout:
  assumes "area s (mSwapIndex s) = pre @ enc_all xs @ post" "list_all rec_ok xs"
    "mSwapUsed s = length pre + length (enc_all xs)" "mSwapUsed s < 2 ^ 32"
  shows "DoesValidRecordExist s (length pre) K = Some (shadowed K xs)"
  using assms
proof (induction xs arbitrary: pre)
  case Nil
  then show ?case by (subst DoesValidRecordExist.simps) (simp add: shadowed_def)
next
  case (Cons x xs)
  then have ok: "rec_ok x" and oks: "list_all rec_ok xs" by simp_all
  have ar: "area s (mSwapIndex s) = pre @ enc x @ (enc_all xs @ post)"
    using Cons.prems(1) by simp
  have h: "ReadHeader s (mSwapIndex s) (length pre) = fst x"
    by (rule ReadHeader_at[OF ar])
  have lt: "length pre < mSwapUsed s"
    using Cons.prems(3) by (simp add: length_enc)
  have nx: "u32 (length pre + unat (GetSize (fst x))) = length pre + length (enc x)"
    using Cons.prems(3,4) by (simp add: size_rec_ok[OF ok] u32_id)
  have ih: "DoesValidRecordExist s (length pre + length (enc x)) K = Some (shadowed K xs)"
    using Cons.IH[of "pre @ enc x"] Cons.prems oks by simp
  show ?case
    apply (subst DoesValidRecordExist.simps)
    apply (simp only: h nx lt if_True Let_def)
    apply (auto simp: ih shadowed_def)
    done
qed

lemma length_compact: "length (enc_all (compact xs)) \<le> length (enc_all xs)"
  by (induction xs) auto

lemma rec_ok_compact: "list_all rec_ok xs \<Longrightarrow> list_all rec_ok (compact xs)"
  by (induction xs) auto

lemma area_update_const [simp]: "area_update d (\<lambda>_. X) (area_update d g s) = area_update d (\<lambda>_. X) s"
  by (simp add: area_update_def)

lemma Swap_loop_layout:
  assumes "area s (mSwapIndex s) = pre @ enc_all xs @ post" "list_all rec_ok xs"
    "mSwapUsed s = length pre + length (enc_all xs)" "mSwapUsed s < 2 ^ 32"
    "(d = 0) \<noteq> (mSwapIndex s = 0)" "area s d = dpre @ replicate k 0xff"
    "length (enc_all (compact xs)) \<le> k" "length dpre + k < 2 ^ 32"
  shows "Swap_loop s d (length pre) (length dpre) =
         Some (area_update d (\<lambda>_. dpre @ enc_all (compact xs) @
                                   replicate (k - length (enc_all (compact xs))) 0xff) s,
               length dpre + length (enc_all (compact xs)))"
  using assms
proof (induction xs arbitrary: pre dpre k s)
  case Nil
  have "area_update d (\<lambda>_. area s d) s = s"
    by (simp add: area_update_def area_def)
  with Nil show ?case by (subst Swap_loop.simps) simp
next
  case (Cons x xs)
  then have ok: "rec_ok x" and oks: "list_all rec_ok xs" by simp_all
  have ar: "area s (mSwapIndex s) = pre @ enc x @ (enc_all xs @ post)"
    using Cons.prems(1) by simp
  have h: "ReadHeader s (mSwapIndex s) (length pre) = fst x"
    by (rule ReadHeader_at[OF ar])
  have lt: "length pre < mSwapUsed s"
    using Cons.prems(3) by (simp add: length_enc)
  have sz: "unat (GetSize (fst x)) = length (enc x)"
    by (rule size_rec_ok[OF ok])
  have nx: "u32 (length pre + length (enc x)) = length pre + length (enc x)"
    using Cons.prems(3,4) by (simp add: u32_id)
  have ab: "IsAddBeginSet (fst x)" using ok by (simp add: rec_ok_def)
  have sh: "DoesValidRecordExist s (length pre + length (enc x)) (mKey (fst x)) = Some (shadowed (mKey (fst x)) xs)"
    using DoesValidRecordExist_layout[of s "pre @ enc x" xs post] Cons.prems oks by simp
  show ?case
  proof (cases "\<not> IsValid (fst x) \<or> shadowed (mKey (fst x)) xs")
    case True
    have ih: "Swap_loop s d (length pre + length (enc x)) (length dpre) =
         Some (area_update d (\<lambda>_. dpre @ enc_all (compact xs) @
                                   replicate (k - length (enc_all (compact xs))) 0xff) s,
               length dpre + length (enc_all (compact xs)))"
      using Cons.IH[of s "pre @ enc x" dpre k] Cons.prems oks True by simp
    show ?thesis
      apply (subst Swap_loop.simps)
      apply (simp only: h sz nx lt if_True Let_def ab not_True_eq_False if_False sh)
      using True apply (auto simp: ih)
      done
  next
    case False
    define k' where "k' = k - length (enc x)"
    have k: "k = length (enc x) + k'"
      using Cons.prems(7) False by (simp add: k'_def)
    have rd: "otPlatFlashRead (area s (mSwapIndex s)) (length pre) (length (enc x)) = enc x"
      unfolding ar using read_append[of "length (enc x)" "enc x" pre "enc_all xs @ post"] by simp
    define s' where "s' = area_update d (\<lambda>r. otPlatFlashWrite r (length dpre) (enc x)) s"
    have "otPlatFlashWrite (dpre @ replicate (length (enc x)) 0xff @ replicate k' 0xff) (length dpre) (enc x)
          = dpre @ map2 (AND) (replicate (length (enc x)) 0xff) (enc x) @ replicate k' 0xff"
      by (intro write_append) simp
    then have w: "otPlatFlashWrite (area s d) (length dpre) (enc x) = (dpre @ enc x) @ replicate k' 0xff"
      by (simp add: Cons.prems(6) k replicate_add and_erased)
    have d': "area s' d = (dpre @ enc x) @ replicate k' 0xff"
      by (simp add: s'_def area_area_update w)
    have src': "area s' (mSwapIndex s') = area s (mSwapIndex s)"
      using Cons.prems(5) by (auto simp: s'_def area_area_update)
    have nd: "u32 (length dpre + length (enc x)) = length dpre + length (enc x)"
      using Cons.prems(8) k by (simp add: u32_id)
    have ih: "Swap_loop s' d (length pre + length (enc x)) (length dpre + length (enc x)) =
         Some (area_update d (\<lambda>_. (dpre @ enc x) @ enc_all (compact xs) @
                                   replicate (k' - length (enc_all (compact xs))) 0xff) s',
               length (dpre @ enc x) + length (enc_all (compact xs)))"
      using Cons.IH[of s' "pre @ enc x" "dpre @ enc x" k'] Cons.prems oks False d' src' k
      by (simp add: s'_def)
    have fin: "k' - length (enc_all (compact xs)) = k - length (enc_all (compact (x # xs)))"
      using False by (simp add: k)
    show ?thesis
      apply (subst Swap_loop.simps)
      apply (simp only: h sz nx lt if_True Let_def ab not_True_eq_False if_False sh rd nd)
      using False apply (simp add: ih s'_def[symmetric] fin)
      apply (simp add: s'_def comp_def)
      done
  qed
qed




lemma length_le32 [simp]: "length (le32 w) = 4"
  by (simp add: le32_def)

lemma area0_area1: "area0 s = area s 0" "area1 s = area s 1"
  by (simp_all add: area_def)

lemma Swap_ok:
  assumes "log_ok s"
  shows "\<exists>s'. Swap s = Some s' \<and> store_ok s' \<and> records s' = compact (records s) \<and>
           mSwapSize s' = mSwapSize s \<and> mSwapIndex s' = 1 - mSwapIndex s"
proof -
  from log_ok_layout[OF assms] obtain pre post where
    a: "area s (mSwapIndex s) = pre @ enc_all (records s) @ post" "length pre = 4"
    "list_all rec_ok (records s)" "mSwapUsed s = 4 + length (enc_all (records s))"
    by metis
  from assms have f: "mSwapHeaderSize s = 4" "mSwapIndex s < 2" "length (area s 0) = mSwapSize s"
    "length (area s 1) = mSwapSize s" "mSwapSize s < 2 ^ 32" "mSwapUsed s \<le> mSwapSize s"
    by (simp_all add: log_ok_def area_def)
  define d :: nat where "d = (if mSwapIndex s = 0 then 1 else 0)"
  have d: "(d = 0) \<noteq> (mSwapIndex s = 0)" "d < 2" "d = 1 - mSwapIndex s"
    using f(2) by (auto simp: d_def)
  define n where "n = mSwapSize s"
  define k where "k = n - 4"
  have n: "n = 4 + k" using a(4) f(6) by (simp add: k_def n_def)
  define c where "c = compact (records s)"
  have cl: "length (enc_all c) \<le> k"
    using length_compact[of "records s"] a(4) f(6) n by (simp add: c_def n_def)
  define s1 where "s1 = area_update d otPlatFlashErase s"
  have len_d: "length (area s d) = n"
    using f(3,4) d(2) by (cases "d = 0") (auto simp: n_def area_def)
  have e: "area s1 d = replicate 4 0xff @ replicate k 0xff"
    by (simp add: s1_def area_area_update otPlatFlashErase_def len_d n replicate_add)
  have src1: "area s1 (mSwapIndex s1) = pre @ enc_all (records s) @ post"
    using d(1) a(1) by (auto simp: s1_def area_area_update)
  have lp: "Swap_loop s1 d (length pre) (length (replicate 4 (0xff :: byte))) =
         Some (area_update d (\<lambda>_. replicate 4 0xff @ enc_all (compact (records s)) @
                                   replicate (k - length (enc_all (compact (records s)))) 0xff) s1,
               length (replicate 4 (0xff :: byte)) + length (enc_all (compact (records s))))"
    apply (rule Swap_loop_layout[OF src1 a(3) _ _ _ e])
    using a(2,4) f(5,6) d(1) cl n by (simp_all add: s1_def c_def n_def)
  define k' where "k' = k - length (enc_all c)"
  define s' where "s' = (area_update (mSwapIndex s) (\<lambda>r. otPlatFlashWrite r 0 (le32 kInactive))
              (area_update d (\<lambda>_. le32 kActive @ enc_all c @ replicate k' 0xff) s))
              \<lparr>mSwapIndex := d, mSwapUsed := 4 + length (enc_all c)\<rparr>"
  have w: "otPlatFlashWrite (replicate 4 0xff @ enc_all c @ replicate k' 0xff) 0 (le32 kActive)
           = le32 kActive @ enc_all c @ replicate k' 0xff"
    using write_append[of "le32 kActive" "replicate 4 0xff" "[]" "enc_all c @ replicate k' 0xff"]
    by (simp add: and_erased)
  have sw: "Swap s = Some s'"
    unfolding Swap_def Let_def d_def[symmetric] s1_def[symmetric] f(1)
    using lp a(2)
    by (simp add: c_def[symmetric] k'_def[symmetric] s'_def s1_def comp_def w)
  have ard: "area s' (mSwapIndex s') = le32 kActive @ enc_all c @ replicate k' 0xff"
    using d(1) by (auto simp: s'_def area_area_update)
  have l0: "length (area s' 0) = n" "length (area s' 1) = n"
    using d f(2,3,4) cl n
    by (auto simp: s'_def area_area_update k'_def n_def)
  have sz': "mSwapSize s' = n" by (simp add: s'_def n_def)
  have p1: "mSwapHeaderSize s' = 4" by (simp add: s'_def f(1))
  have p2: "mSwapIndex s' < 2" by (simp add: s'_def d(2))
  have p3: "length (area0 s') = mSwapSize s'" "length (area1 s') = mSwapSize s'"
    using l0 by (simp_all add: area0_area1 sz')
  have p5: "mSwapSize s' < 2 ^ 32" using f(5) by (simp add: sz' n_def)
  have p8: "list_all rec_ok c" unfolding c_def by (rule rec_ok_compact[OF a(3)])
  have p9: "mSwapUsed s' = 4 + length (enc_all c)" by (simp add: s'_def)
  have "store_ok s' \<and> records s' = c"
    by (rule store_okI[OF p1 p2 p3 p5 ard _ p8 p9]) simp
  then show ?thesis
    using sw d(3) by (auto simp: c_def s'_def)
qed




lemma const_comp [simp]: "(\<lambda>_. X) \<circ> g = (\<lambda>_. X)"
  by (simp add: comp_def)

lemma write_header:
  "otPlatFlashWrite (pre @ encode_header h @ rest) (length pre) (encode_header (h\<lparr>mFlags := mFlags h AND m\<rparr>))
   = pre @ encode_header (h\<lparr>mFlags := mFlags h AND m\<rparr>) @ rest"
  using write_append[of "encode_header (h\<lparr>mFlags := mFlags h AND m\<rparr>)" "encode_header h" pre rest]
  by (simp add: encode_and_flags)

lemma write_SetDeleted:
  "otPlatFlashWrite (pre @ encode_header h @ rest) (length pre) (encode_header (SetDeleted h))
   = pre @ encode_header (SetDeleted h) @ rest"
  unfolding SetDeleted_def by (rule write_header)

lemma write_SetFirst:
  "otPlatFlashWrite (pre @ encode_header h @ rest) (length pre) (encode_header (SetFirst h))
   = pre @ encode_header (SetFirst h) @ rest"
  unfolding SetFirst_def by (rule write_header)

lemma length_enc_delete_step [simp]: "length (enc (delete_step i x idx)) = length (enc x)"
  by (simp add: delete_step_def length_enc Let_def)

lemma GetSize_delete_step [simp]: "GetSize (fst (delete_step i x idx)) = GetSize (fst x)"
  by (rule GetSize_cong) (simp add: delete_step_def Let_def)

lemma Delete_loop_layout:
  assumes "area s (mSwapIndex s) = pre @ enc_all xs @ post" "list_all rec_ok xs"
    "mSwapUsed s = length pre + length (enc_all xs)" "mSwapUsed s < 2 ^ 32"
  shows "Delete_loop s K i (length pre) idx err =
         Some (if True \<in> set (tombstones K i xs idx) then OT_ERROR_NONE else err,
               area_update (mSwapIndex s) (\<lambda>_. pre @ enc_all (scan_delete K i xs idx) @ post) s)"
  using assms
proof (induction xs arbitrary: pre idx err s)
  case Nil
  have "area_update (mSwapIndex s) (\<lambda>_. area s (mSwapIndex s)) s = s"
    by (simp add: area_update_def area_def)
  with Nil show ?case by (subst Delete_loop.simps) simp
next
  case (Cons x xs)
  then have ok: "rec_ok x" and oks: "list_all rec_ok xs" by simp_all
  have ar: "area s (mSwapIndex s) = pre @ enc x @ (enc_all xs @ post)"
    using Cons.prems(1) by simp
  have h: "ReadHeader s (mSwapIndex s) (length pre) = fst x"
    by (rule ReadHeader_at[OF ar])
  have lt: "length pre < mSwapUsed s"
    using Cons.prems(3) by (simp add: length_enc)
  have nx: "u32 (length pre + unat (GetSize (fst x))) = length pre + length (enc x)"
    using Cons.prems(3,4) by (simp add: size_rec_ok[OF ok] u32_id)
  show ?case
  proof (cases "live K x")
    case False
    have ih: "Delete_loop s K i (length pre + length (enc x)) idx err =
         Some (if True \<in> set (tombstones K i xs idx) then OT_ERROR_NONE else err,
               area_update (mSwapIndex s) (\<lambda>_. (pre @ enc x) @ enc_all (scan_delete K i xs idx) @ post) s)"
      using Cons.IH[of s "pre @ enc x" idx err] Cons.prems oks by simp
    have c: "mKey (fst x) \<noteq> K \<or> \<not> IsValid (fst x)"
      using False by (simp add: live_def)
    show ?thesis
      apply (subst Delete_loop.simps)
      apply (simp only: h nx lt if_True Let_def c)
      using False apply (simp add: ih)
      done
  next
    case True
    define j where "j = bump x idx"
    define y where "y = delete_step i x j"
    define s2 where "s2 = area_update (mSwapIndex s) (\<lambda>_. pre @ enc y @ (enc_all xs @ post)) s"
    define h1 where "h1 = (if i = j \<or> i = - 1 then SetDeleted (fst x) else fst x)"
    define h2 where "h2 = (if j = 1 \<and> i = 0 then SetFirst h1 else h1)"
    have y: "y = (h2, snd x)" by (auto simp: y_def delete_step_def h1_def h2_def Let_def)
    define t1 where "t1 = (if i = j \<or> i = - 1 then
                         area_update (mSwapIndex s)
                           (\<lambda>r. otPlatFlashWrite r (length pre) (encode_header h1)) s
                       else s)"
    have a1: "area t1 (mSwapIndex s) = pre @ encode_header h1 @ (snd x @ enc_all xs @ post)"
      using ar by (simp add: t1_def h1_def area_area_update enc_def write_SetDeleted)
    have t1f: "mSwapIndex t1 = mSwapIndex s" by (simp add: t1_def)
    define t2 where "t2 = (if j = 1 \<and> i = 0 then
                         area_update (mSwapIndex t1)
                           (\<lambda>r. otPlatFlashWrite r (length pre) (encode_header h2)) t1
                       else t1)"
    have a2: "area t2 (mSwapIndex s) = pre @ encode_header h2 @ (snd x @ enc_all xs @ post)"
      using a1 by (simp add: t2_def h2_def area_area_update t1f write_SetFirst)
    have "t2 = area_update (mSwapIndex s) (\<lambda>_. area t2 (mSwapIndex s)) s"
      by (simp add: t2_def t1_def area_update_def area_def)
    then have t2: "t2 = s2"
      by (simp add: a2 s2_def y enc_def)
    have gs: "GetSize h2 = GetSize (fst x)"
      by (rule GetSize_cong) (simp add: h2_def h1_def)
    have ih: "Delete_loop s2 K i (length pre + length (enc x)) idx' err' =
         Some (if True \<in> set (tombstones K i xs idx') then OT_ERROR_NONE else err',
               area_update (mSwapIndex s) (\<lambda>_. (pre @ enc y) @ enc_all (scan_delete K i xs idx') @ post) s)" for idx' err'
      using Cons.IH[of s2 "pre @ enc y" idx' err'] Cons.prems oks
      by (simp add: s2_def area_area_update y_def)
    have c: "(mKey (fst x) \<noteq> K \<or> \<not> IsValid (fst x)) = False"
      using True by (simp add: live_def)
    have j: "(if IsFirst (fst x) then 0 else idx) = j"
      by (simp add: j_def bump_def)
    define e1 where "e1 = (if i = j \<or> i = - 1 then OT_ERROR_NONE else err)"
    have step: "Delete_loop s K i (length pre) idx err =
                Delete_loop t2 K i (length pre + length (enc x)) (j + 1) e1"
      apply (subst Delete_loop.simps)
      apply (simp only: h lt if_True Let_def c if_False j)
      apply (simp add: t2_def t1_def h2_def h1_def e1_def nx GetSize_cong[of "SetFirst _" "fst x"]
          GetSize_cong[of "SetDeleted _" "fst x"])
      done
    show ?thesis
      unfolding step t2 ih
      using True by (auto simp: y_def j_def e1_def)
  qed
qed




lemma log_ok_of_store_ok: "store_ok s \<Longrightarrow> log_ok s"
  by (simp add: store_ok_def)

lemma Get_ok:
  assumes "log_ok s"
  shows "Get s K i aValue aValueLength =
         Some (case foldl (hit aValueLength) (OT_ERROR_NOT_FOUND, 0, aValue) (hits K i (records s) 0) of
                 (error, valueLength, aValue') \<Rightarrow>
                   (error, aValue', map_option (\<lambda>_. valueLength) aValueLength))"
proof -
  from log_ok_layout[OF assms] obtain pre post where
    a: "area s (mSwapIndex s) = pre @ enc_all (records s) @ post" "length pre = 4"
    "list_all rec_ok (records s)" "mSwapUsed s = 4 + length (enc_all (records s))"
    by metis
  from assms have f: "mSwapHeaderSize s = 4" "mSwapSize s < 2 ^ 32" "mSwapUsed s \<le> mSwapSize s"
    by (simp_all add: log_ok_def)
  have "Get_loop s K i aValueLength (length pre) 0 (OT_ERROR_NOT_FOUND, 0, aValue) =
        Some (foldl (hit aValueLength) (OT_ERROR_NOT_FOUND, 0, aValue) (hits K i (records s) 0))"
    by (rule Get_loop_layout[OF a(1) a(3)]) (use a f in simp_all)
  then show ?thesis
    by (simp add: Get_def f(1) a(2) split: prod.splits)
qed

lemma flags_kept:
  "IsAddBeginSet (SetDeleted h) = IsAddBeginSet h" "IsAddCompleteSet (SetDeleted h) = IsAddCompleteSet h"
  "IsAddBeginSet (SetFirst h) = IsAddBeginSet h" "IsAddCompleteSet (SetFirst h) = IsAddCompleteSet h"
  by (simp_all add: flags_tests flags_sets)

lemma rec_ok_delete_step: "rec_ok x \<Longrightarrow> rec_ok (delete_step i x j)"
  by (simp add: rec_ok_def delete_step_def Let_def flags_kept)

lemma rec_ok_scan_delete: "list_all rec_ok xs \<Longrightarrow> list_all rec_ok (scan_delete K i xs idx)"
  by (induction xs arbitrary: idx) (simp_all add: rec_ok_delete_step)

lemma length_enc_scan_delete [simp]: "length (enc_all (scan_delete K i xs idx)) = length (enc_all xs)"
  by (induction xs arbitrary: idx) simp_all

lemma Delete_ok:
  assumes "store_ok s"
  shows "\<exists>s'. Delete s K i =
                Some (if True \<in> set (tombstones K i (records s) 0) then OT_ERROR_NONE
                      else OT_ERROR_NOT_FOUND, s') \<and>
              store_ok s' \<and> records s' = scan_delete K i (records s) 0 \<and>
              mSwapUsed s' = mSwapUsed s \<and> mSwapIndex s' = mSwapIndex s \<and>
              mSwapSize s' = mSwapSize s"
proof -
  from store_ok_layout[OF assms] obtain pre k where
    a: "area s (mSwapIndex s) = pre @ enc_all (records s) @ replicate k 0xff" "length pre = 4"
    "list_all rec_ok (records s)" "mSwapUsed s = 4 + length (enc_all (records s))"
    "mSwapUsed s + k = mSwapSize s" by metis
  from assms have f: "mSwapHeaderSize s = 4" "mSwapIndex s < 2" "length (area0 s) = mSwapSize s"
    "length (area1 s) = mSwapSize s" "mSwapSize s < 2 ^ 32"
    by (simp_all add: store_ok_def log_ok_def)
  define s' where "s' = area_update (mSwapIndex s)
      (\<lambda>_. pre @ enc_all (scan_delete K i (records s) 0) @ replicate k 0xff) s"
  have d: "Delete s K i = Some (if True \<in> set (tombstones K i (records s) 0) then OT_ERROR_NONE
                      else OT_ERROR_NOT_FOUND, s')"
    unfolding Delete_def f(1) a(2)[symmetric] s'_def
    by (rule Delete_loop_layout[OF a(1) a(3)]) (use a f in simp_all)
  have l: "length (area0 s') = mSwapSize s'" "length (area1 s') = mSwapSize s'"
    using f a by (auto simp: s'_def area_update_def)
  have ar: "area s' (mSwapIndex s') = pre @ enc_all (scan_delete K i (records s) 0) @ replicate k 0xff"
    by (simp add: s'_def area_area_update)
  have "store_ok s' \<and> records s' = scan_delete K i (records s) 0"
    by (rule store_okI[OF _ _ l _ ar a(2) rec_ok_scan_delete[OF a(3)]])
       (use f a in \<open>simp_all add: s'_def\<close>)
  with d show ?thesis by (auto simp: s'_def)
qed

lemma Wipe_ok:
  assumes "length (area0 s) = mSwapSize s" "length (area1 s) = mSwapSize s"
    "4 \<le> mSwapSize s" "mSwapSize s < 2 ^ 32"
  shows "store_ok (Wipe s) \<and> records (Wipe s) = [] \<and> mSwapUsed (Wipe s) = 4 \<and>
         mSwapSize (Wipe s) = mSwapSize s \<and> mSwapIndex (Wipe s) = 0"
proof -
  define k where "k = mSwapSize s - 4"
  have n: "mSwapSize s = 4 + k" using assms(3) by (simp add: k_def)
  have w: "otPlatFlashWrite (replicate 4 0xff @ replicate k 0xff) 0 (le32 kActive)
           = le32 kActive @ replicate k 0xff"
    using write_append[of "le32 kActive" "replicate 4 0xff" "[]" "replicate k 0xff"]
    by (simp add: and_erased)
  have "area (Wipe s) 0 = otPlatFlashWrite (otPlatFlashErase (area s 0)) 0 (le32 kActive)"
    by (simp add: Wipe_def area_area_update)
  also have "otPlatFlashErase (area s 0) = replicate 4 0xff @ replicate k 0xff"
    using assms(1) by (simp add: otPlatFlashErase_def area_def n replicate_add)
  finally have ar: "area (Wipe s) (mSwapIndex (Wipe s)) = le32 kActive @ enc_all [] @ replicate k 0xff"
    using w by (simp add: Wipe_def)
  have "store_ok (Wipe s) \<and> records (Wipe s) = []"
    by (rule store_okI[OF _ _ _ _ _ ar])
       (use assms in \<open>simp_all add: Wipe_def SwapHeader_GetSize_def area_update_def\<close>)
  then show ?thesis
    by (simp add: Wipe_def SwapHeader_GetSize_def)
qed




lemma Add_first_swap:
  assumes ok: "store_ok s" and len: "length V \<le> 256"
    and nofit: "mSwapSize s < mSwapUsed s + 8 + padded (length V)"
    and room: "4 + 8 + padded (length V) \<le> mSwapSize s"
  shows "\<exists>t. Swap s = Some t \<and> store_ok t \<and> records t = compact (records s) \<and>
           mSwapSize t = mSwapSize s \<and>
           (if mSwapSize s < mSwapUsed t + 8 + padded (length V)
            then Add_first s u K f V = Some (OT_ERROR_NO_BUFS, t)
            else \<exists>s'. Add_first s u K f V = Some (OT_ERROR_NONE, s') \<and> store_ok s' \<and>
                   records s' = records t @ [new_record u K f V] \<and>
                   mSwapUsed s' = mSwapUsed t + 8 + padded (length V) \<and>
                   mSwapIndex s' = mSwapIndex t \<and> mSwapSize s' = mSwapSize s)"
proof -
  from ok have f: "mSwapHeaderSize s = 4" "mSwapSize s < 2 ^ 32"
    by (simp_all add: store_ok_def log_ok_def)
  from Swap_ok[OF log_ok_of_store_ok[OF ok]] obtain t where
    t: "Swap s = Some t" "store_ok t" "records t = compact (records s)" "mSwapSize t = mSwapSize s"
    by blast
  define sz where "sz = 8 + padded (length V)"
  have sz: "unat (GetSize ((RecordHeader_Init K f)\<lparr>mLength := of_nat (length V)\<rparr>)) = sz"
    by (simp add: Add_first_size len sz_def)
  have c1: "length V \<le> kMaxDataSize" using len by (simp add: kMaxDataSize_def)
  have c2: "u32 (mSwapSize s + 2 ^ 32 - sz) = mSwapSize s - sz"
    using room f(2) by (intro u32_sub) (simp_all add: sz_def)
  have c3: "mSwapHeaderSize s \<le> mSwapSize s - sz" "mSwapSize s - sz < mSwapUsed s"
    using room nofit f(1) by (simp_all add: sz_def)
  show ?thesis
  proof (cases "mSwapSize s < mSwapUsed t + 8 + padded (length V)")
    case True
    then have c5: "\<not> mSwapUsed t \<le> mSwapSize s - sz"
      using room by (simp add: sz_def)
    have "Add_first s u K f V = Some (OT_ERROR_NO_BUFS, t)"
      unfolding Add_first_def Let_def sz c2
      using c1 c3 c5 by (simp add: t c2[simplified])
    with t True show ?thesis by simp
  next
    case False
    then have fits: "mSwapUsed t + 8 + padded (length V) \<le> mSwapSize t"
      by (simp add: t(4))
    then have c5: "mSwapUsed t \<le> mSwapSize s - sz"
      using room by (simp add: sz_def t(4))
    have ft: "mSwapHeaderSize t = 4"
      using t(2) by (simp add: store_ok_def log_ok_def)
    have c2t: "u32 (mSwapSize t + 2 ^ 32 - sz) = mSwapSize s - sz"
      using c2 by (simp add: t(4))
    have eq: "Add_first s u K f V = Add_first t u K f V"
      unfolding Add_first_def Let_def sz c2 c2t
      using c1 c3 c5 by (simp add: t c2[simplified] ft f(1))
    have "\<exists>s'. Add_first s u K f V = Some (OT_ERROR_NONE, s') \<and> store_ok s' \<and>
                   records s' = records t @ [new_record u K f V] \<and>
                   mSwapUsed s' = mSwapUsed t + 8 + padded (length V) \<and>
                   mSwapIndex s' = mSwapIndex t \<and> mSwapSize s' = mSwapSize s"
      unfolding eq using Add_first_fits[OF t(2) len fits, of u K f] by (auto simp: t(4))
    with t False show ?thesis by simp
  qed
qed




lemma bump_nonneg: "0 \<le> idx \<Longrightarrow> 0 \<le> bump x idx"
  by (simp add: bump_def)

lemma hits_negative: "i < 0 \<Longrightarrow> 0 \<le> idx \<Longrightarrow> hits K i xs idx = []"
proof (induction xs arbitrary: idx)
  case Nil
  then show ?case by simp
next
  case (Cons x xs)
  from Cons.prems have "0 \<le> bump x idx" by (simp add: bump_nonneg)
  with Cons.prems Cons.IH[of "bump x idx + 1"] Cons.IH[of idx] show ?case by auto
qed

lemma hits_append:
  "hits K i (xs @ ys) idx = hits K i xs idx @ hits K i ys (counter K xs idx)"
  by (induction xs arbitrary: idx) simp_all

lemma counter_append: "counter K (xs @ ys) idx = counter K ys (counter K xs idx)"
  by (induction xs arbitrary: idx) simp_all

lemma no_live_hits: "\<forall>x \<in> set xs. \<not> live K x \<Longrightarrow> hits K i xs idx = []"
  by (induction xs arbitrary: idx) simp_all

lemma no_live_counter: "\<forall>x \<in> set xs. \<not> live K x \<Longrightarrow> counter K xs idx = idx"
  by (induction xs arbitrary: idx) simp_all

lemma hits_0_empty_iff: "hits K 0 xs 0 = [] \<longleftrightarrow> (\<forall>x \<in> set xs. \<not> live K x)"
proof
  show "hits K 0 xs 0 = [] \<Longrightarrow> \<forall>x \<in> set xs. \<not> live K x"
    by (induction xs) (auto simp: bump_def split: if_splits)
qed (rule no_live_hits)

lemma hits_live: "set (hits K i xs idx) \<subseteq> {x \<in> set xs. live K x}"
  by (induction xs arbitrary: idx) auto

lemma foldl_hit_Nil [simp]: "foldl (hit al) acc [] = acc"
  by simp

lemma foldl_hit_snoc: "foldl (hit al) acc (hs @ [x]) = hit al (foldl (hit al) acc hs) x"
  by simp

lemma buffer_kept:
  "\<exists>b. snd (snd (foldl (hit (Some l)) (e, v, Some buf) hs)) = Some b"
proof (induction hs arbitrary: e v buf)
  case Nil
  show ?case by simp
next
  case (Cons h hs)
  obtain b where "hit (Some l) (e, v, Some buf) h = (OT_ERROR_NONE, mLength (fst h), Some b)"
    by (simp add: hit_def copy_out_def Let_def)
  with Cons.IH[of OT_ERROR_NONE "mLength (fst h)" b] show ?case by simp
qed

lemma null_kept:
  "al = None \<or> av = None \<Longrightarrow> snd (snd (foldl (hit al) (e, v, av) hs)) = av"
  by (induction hs arbitrary: e v) (auto simp: hit_def copy_out_def split: option.splits)

lemma Get_no_hit:
  assumes "log_ok s" "hits K i (records s) 0 = []"
  shows "Get s K i av al = Some (OT_ERROR_NOT_FOUND, av, map_option (\<lambda>_. 0) al)"
  by (simp add: Get_ok[OF assms(1)] assms(2))

lemma Get_last_hit:
  assumes "log_ok s" "hits K i (records s) 0 = hs @ [x]"
  shows "\<exists>b. Get s K i (Some buf) (Some l) = Some (OT_ERROR_NONE, Some b, Some (mLength (fst x))) \<and>
             take (min (unat l) (unat (mLength (fst x)))) b =
             take (min (unat l) (unat (mLength (fst x)))) (snd x)"
    and "al = None \<or> av = None \<Longrightarrow>
         Get s K i av al = Some (OT_ERROR_NONE, av, map_option (\<lambda>_. mLength (fst x)) al)"
proof -
  from log_ok_layout[OF assms(1)] have oks: "list_all rec_ok (records s)" by metis
  have "x \<in> set (records s)"
    using hits_live[of K i "records s" 0] assms(2) by auto
  with oks have "rec_ok x" by (simp add: list_all_iff)
  then have lx: "unat (mLength (fst x)) \<le> length (snd x)"
    using padded_ge[of "unat (mLength (fst x))"] by (simp add: rec_ok_def)
  obtain b' where b': "snd (snd (foldl (hit (Some l)) (OT_ERROR_NOT_FOUND, 0, Some buf) hs)) = Some b'"
    using buffer_kept by blast
  define rl where "rl = (if mLength (fst x) < l then mLength (fst x) else l)"
  have rl: "unat rl = min (unat l) (unat (mLength (fst x)))"
    by (auto simp: rl_def word_less_nat_alt min_def)
  have "Get s K i (Some buf) (Some l) =
        Some (OT_ERROR_NONE, Some (take (unat rl) (snd x) @ drop (unat rl) b'), Some (mLength (fst x)))"
    by (simp add: Get_ok[OF assms(1)] assms(2) hit_def copy_out_def b' rl_def Let_def)
  moreover have "take (unat rl) (take (unat rl) (snd x) @ drop (unat rl) b') = take (unat rl) (snd x)"
    using lx by (simp add: rl)
  ultimately show "\<exists>b. Get s K i (Some buf) (Some l) = Some (OT_ERROR_NONE, Some b, Some (mLength (fst x))) \<and>
             take (min (unat l) (unat (mLength (fst x)))) b =
             take (min (unat l) (unat (mLength (fst x)))) (snd x)"
    by (simp add: rl)
  show "Get s K i av al = Some (OT_ERROR_NONE, av, map_option (\<lambda>_. mLength (fst x)) al)"
    if "al = None \<or> av = None"
    using null_kept[OF that, of OT_ERROR_NOT_FOUND 0 hs] that
    by (auto simp add: Get_ok[OF assms(1)] assms(2) hit_def copy_out_def split: option.splits prod.splits)
qed

lemma take_new_record: "take (length V) (snd (new_record u K f V)) = V"
  by (rule nth_equalityI) (use padded_ge[of "length V"] in \<open>simp_all add: new_record_def\<close>)




lemma foldl_hit_error:
  "fst (foldl (hit al) acc hs) = (if hs = [] then fst acc else OT_ERROR_NONE)"
  by (induction hs rule: rev_induct) (simp_all add: hit_def)

lemma Get_probe:
  assumes "log_ok s"
  shows "\<exists>r. Get s K 0 None None = Some (if \<forall>x \<in> set (records s). \<not> live K x
                                           then OT_ERROR_NOT_FOUND else OT_ERROR_NONE, r)"
proof -
  obtain e v b where r: "foldl (hit None) (OT_ERROR_NOT_FOUND, 0, None) (hits K 0 (records s) 0) = (e, v, b)"
    by (metis prod_cases3)
  from foldl_hit_error[of None "(OT_ERROR_NOT_FOUND, 0, None)" "hits K 0 (records s) 0"] r
  have "e = (if hits K 0 (records s) 0 = [] then OT_ERROR_NOT_FOUND else OT_ERROR_NONE)"
    by simp
  then show ?thesis
    by (simp add: Get_ok[OF assms] r hits_0_empty_iff)
qed

lemma Add_fits:
  assumes ok: "store_ok s" and len: "length V \<le> 256"
    and fits: "mSwapUsed s + 8 + padded (length V) \<le> mSwapSize s"
  shows "\<exists>s'. Add s u K V = Some (OT_ERROR_NONE, s') \<and>
         store_ok s' \<and>
         records s' = records s @ [new_record u K (\<forall>x \<in> set (records s). \<not> live K x) V] \<and>
         mSwapUsed s' = mSwapUsed s + 8 + padded (length V) \<and>
         mSwapIndex s' = mSwapIndex s \<and> mSwapSize s' = mSwapSize s"
proof -
  define fl where "fl = (\<forall>x \<in> set (records s). \<not> live K x)"
  from Get_probe[OF log_ok_of_store_ok[OF ok], of K] obtain r where
    g: "Get s K 0 None None = Some (if fl then OT_ERROR_NOT_FOUND else OT_ERROR_NONE, r)"
    unfolding fl_def by blast
  have "Add s u K V = Add_first s u K fl V"
    by (cases r; cases fl) (simp_all add: Add_def g)
  with Add_first_fits[OF ok len fits, of u K fl]
  show ?thesis unfolding fl_def by auto
qed

lemma Set_fits:
  assumes ok: "store_ok s" and len: "length V \<le> 256"
    and fits: "mSwapUsed s + 8 + padded (length V) \<le> mSwapSize s"
  shows "\<exists>s'. Set s u K V = Some (OT_ERROR_NONE, s') \<and>
         store_ok s' \<and> records s' = records s @ [new_record u K True V] \<and>
         mSwapUsed s' = mSwapUsed s + 8 + padded (length V) \<and>
         mSwapIndex s' = mSwapIndex s \<and> mSwapSize s' = mSwapSize s"
  using Add_first_fits[OF ok len fits, of u K True] by (auto simp: Set_def)

lemma Get_loop_negative:
  assumes "Get_loop s K i al off idx acc = Some r"
  shows "i < 0 \<longrightarrow> 0 \<le> idx \<longrightarrow> r = acc"
  apply (rule Get_loop.raw_induct[where P="\<lambda>s K i al off idx acc r. i < 0 \<longrightarrow> 0 \<le> idx \<longrightarrow> r = acc", OF _ assms])
  subgoal for f s aKey aIndex aValueLength offset index acc sa
    apply (cases "offset < mSwapUsed s")
     apply (auto simp: Let_def split: if_splits)
    done
  done


text \<open>The blank device after \<open>Wipe\<close>, and after one \<open>Set\<close>.\<close>

lemma wiped_blank:
  "store_ok (Wipe blank)" "records (Wipe blank) = []" "mSwapUsed (Wipe blank) = 4"
  "mSwapSize (Wipe blank) = 64" "mSwapIndex (Wipe blank) = 0"
  using Wipe_ok[of blank] by (simp_all add: blank_def)

lemma padded_2 [simp]: "padded (Suc (Suc 0)) = 4" "padded 2 = 4"
  by (simp_all add: padded_def)

lemma run_calls_Cons:
  "run_call u s c = Some s' \<Longrightarrow> run_calls u s (c # cs) = run_calls u s' cs"
  by simp

lemma one_Set:
  "\<exists>s. run_calls u (Wipe blank) [Call_Set K [a, b]] = Some s \<and> store_ok s \<and>
       records s = [new_record u K True [a, b]] \<and> mSwapUsed s = 16 \<and> mSwapSize s = 64"
proof -
  from Set_fits[of "Wipe blank" "[a, b]" u K] obtain s' where
    s': "Set (Wipe blank) u K [a, b] = Some (OT_ERROR_NONE, s')" "store_ok s'"
    "records s' = [new_record u K True [a, b]]" "mSwapUsed s' = 16" "mSwapSize s' = 64"
    by (auto simp: wiped_blank)
  then have "run_calls u (Wipe blank) [Call_Set K [a, b]] = Some s'"
    by simp
  with s' show ?thesis by blast
qed



lemma length_tombstones [simp]: "length (tombstones K i xs idx) = length xs"
  by (induction xs arbitrary: idx) simp_all

lemma length_scan_delete [simp]: "length (scan_delete K i xs idx) = length xs"
  by (induction xs arbitrary: idx) simp_all

lemma counter_take_Suc:
  "counter K (take j (x # xs)) idx = (case j of 0 \<Rightarrow> idx
     | Suc j' \<Rightarrow> counter K (take j' xs) (if live K x then bump x idx + 1 else idx))"
  by (cases j) simp_all

lemma tombstones_nth:
  "j < length xs \<Longrightarrow>
   tombstones K i xs idx ! j =
     (live K (xs ! j) \<and> (i = bump (xs ! j) (counter K (take j xs) idx) \<or> i = - 1))"
proof (induction xs arbitrary: idx j)
  case Nil
  then show ?case by simp
next
  case (Cons x xs)
  show ?case
  proof (cases j)
    case 0
    then show ?thesis by simp
  next
    case (Suc j')
    with Cons.prems have "j' < length xs" by simp
    from Cons.IH[OF this] show ?thesis
      by (simp add: Suc)
  qed
qed

lemma IsDeleted_delete_step:
  "IsDeleted (fst (delete_step i x c)) = (IsDeleted (fst x) \<or> i = c \<or> i = - 1)"
  by (auto simp: delete_step_def Let_def flags_tests flags_sets)

lemma delete_step_fields [simp]:
  "mKey (fst (delete_step i x c)) = mKey (fst x)"
  "mLength (fst (delete_step i x c)) = mLength (fst x)"
  "snd (delete_step i x c) = snd x"
  by (simp_all add: delete_step_def Let_def)

lemma scan_delete_nth:
  "j < length xs \<Longrightarrow>
   mKey (fst (scan_delete K i xs idx ! j)) = mKey (fst (xs ! j)) \<and>
   mLength (fst (scan_delete K i xs idx ! j)) = mLength (fst (xs ! j)) \<and>
   snd (scan_delete K i xs idx ! j) = snd (xs ! j) \<and>
   IsDeleted (fst (scan_delete K i xs idx ! j)) =
     (IsDeleted (fst (xs ! j)) \<or> tombstones K i xs idx ! j)"
proof (induction xs arbitrary: idx j)
  case Nil
  then show ?case by simp
next
  case (Cons x xs)
  show ?case
  proof (cases j)
    case 0
    then show ?thesis by (auto simp: IsDeleted_delete_step)
  next
    case (Suc j')
    with Cons.prems have "j' < length xs" by simp
    from Cons.IH[OF this] show ?thesis
      by (simp add: Suc)
  qed
qed

lemma not_valid_deleted: "IsDeleted h \<Longrightarrow> \<not> IsValid h"
  by (simp add: IsValid_bits flags_tests)

lemma delete_all_no_live: "\<forall>y \<in> set (scan_delete K (- 1) xs idx). \<not> live K y"
proof (induction xs arbitrary: idx)
  case Nil
  show ?case by simp
next
  case (Cons x xs)
  have "\<not> live K (delete_step (- 1) x c)" for c
    by (simp add: live_def not_valid_deleted IsDeleted_delete_step)
  with Cons show ?case by simp
qed

lemma store_ok_frontier: "store_ok s \<Longrightarrow> frontier_invariant s"
proof -
  assume ok: "store_ok s"
  from store_ok_layout[OF ok] obtain pre k where
    a: "list_all rec_ok (records s)" "mSwapUsed s = 4 + length (enc_all (records s))"
    "mSwapUsed s + k = mSwapSize s" by metis
  have "length (enc_all xs) mod 4 = 0" if "list_all rec_ok xs" for xs
    using that
  proof (induction xs)
    case Nil
    then show ?case by simp
  next
    case (Cons x xs)
    have "(8 + padded n) mod 4 = 0" for n
      unfolding padded_def by presburger
    with Cons.prems have "length (enc x) mod 4 = 0"
      by (simp add: length_enc rec_ok_def)
    moreover from Cons have "length (enc_all xs) mod 4 = 0" by simp
    ultimately show ?case
      unfolding enc_all_Cons length_append by presburger
  qed
  from this[OF a(1)] have "mSwapUsed s mod 4 = 0"
    unfolding a(2) by presburger
  with ok a show ?thesis
    by (simp add: frontier_invariant_def store_ok_def log_ok_def)
qed

lemma Add_first_total:
  assumes ok: "store_ok s" and len: "length V \<le> 256"
    and room: "4 + 8 + padded (length V) \<le> mSwapSize s"
  shows "\<exists>e s'. Add_first s u K f V = Some (e, s') \<and> store_ok s' \<and>
           (e = OT_ERROR_NONE \<or> e = OT_ERROR_NO_BUFS) \<and> mSwapSize s' = mSwapSize s"
proof (cases "mSwapUsed s + 8 + padded (length V) \<le> mSwapSize s")
  case True
  from Add_first_fits[OF ok len True, of u K f] show ?thesis by blast
next
  case False
  then have nofit: "mSwapSize s < mSwapUsed s + 8 + padded (length V)" by simp
  from Add_first_swap[OF ok len nofit room, of u K f] obtain t where
    t: "store_ok t" "mSwapSize t = mSwapSize s"
    "if mSwapSize s < mSwapUsed t + 8 + padded (length V)
            then Add_first s u K f V = Some (OT_ERROR_NO_BUFS, t)
            else \<exists>s'. Add_first s u K f V = Some (OT_ERROR_NONE, s') \<and> store_ok s' \<and>
                   records s' = records t @ [new_record u K f V] \<and>
                   mSwapUsed s' = mSwapUsed t + 8 + padded (length V) \<and>
                   mSwapIndex s' = mSwapIndex t \<and> mSwapSize s' = mSwapSize s"
    by blast
  then show ?thesis
    by (cases "mSwapSize s < mSwapUsed t + 8 + padded (length V)") auto
qed

lemma Add_total:
  assumes ok: "store_ok s" and len: "length V \<le> 256"
    and room: "4 + 8 + padded (length V) \<le> mSwapSize s"
  shows "\<exists>e s'. Add s u K V = Some (e, s') \<and> store_ok s' \<and>
           (e = OT_ERROR_NONE \<or> e = OT_ERROR_NO_BUFS) \<and> mSwapSize s' = mSwapSize s"
proof -
  from Get_probe[OF log_ok_of_store_ok[OF ok], of K] obtain e r where
    g: "Get s K 0 None None = Some (e, r)" by blast
  have "Add s u K V = Add_first s u K (e = OT_ERROR_NOT_FOUND) V"
    by (cases r) (simp add: Add_def g)
  with Add_first_total[OF ok len room, of u K "e = OT_ERROR_NOT_FOUND"]
  show ?thesis by simp
qed

text \<open>Runs of \<open>Set\<close> and of \<open>Add\<close> that fit the free space.\<close>

lemma Sets_fit:
  assumes "store_ok s" "\<forall>kv \<in> set kvs. length (snd kv) \<le> 256"
    "mSwapUsed s + (\<Sum>kv\<leftarrow>kvs. 8 + padded (length (snd kv))) \<le> mSwapSize s"
  shows "\<exists>s'. run_calls u s (map (\<lambda>kv. Call_Set (fst kv) (snd kv)) kvs) = Some s' \<and> store_ok s' \<and>
           records s' = records s @ map (\<lambda>kv. new_record u (fst kv) True (snd kv)) kvs \<and>
           mSwapUsed s' = mSwapUsed s + (\<Sum>kv\<leftarrow>kvs. 8 + padded (length (snd kv))) \<and>
           mSwapSize s' = mSwapSize s \<and> mSwapIndex s' = mSwapIndex s"
  using assms
proof (induction kvs arbitrary: s)
  case Nil
  then show ?case by simp
next
  case (Cons kv kvs)
  from Cons.prems have len: "length (snd kv) \<le> 256"
    and fits: "mSwapUsed s + 8 + padded (length (snd kv)) \<le> mSwapSize s" by simp_all
  from Set_fits[OF Cons.prems(1) len fits, of u "fst kv"] obtain s1 where
    s1: "Set s u (fst kv) (snd kv) = Some (OT_ERROR_NONE, s1)" "store_ok s1"
    "records s1 = records s @ [new_record u (fst kv) True (snd kv)]"
    "mSwapUsed s1 = mSwapUsed s + 8 + padded (length (snd kv))"
    "mSwapIndex s1 = mSwapIndex s" "mSwapSize s1 = mSwapSize s" by blast
  from Cons.IH[OF s1(2)] Cons.prems(2,3) s1(4,6) obtain s' where
    "run_calls u s1 (map (\<lambda>kv. Call_Set (fst kv) (snd kv)) kvs) = Some s'" "store_ok s'"
    "records s' = records s1 @ map (\<lambda>kv. new_record u (fst kv) True (snd kv)) kvs"
    "mSwapUsed s' = mSwapUsed s1 + (\<Sum>kv\<leftarrow>kvs. 8 + padded (length (snd kv)))"
    "mSwapSize s' = mSwapSize s1" "mSwapIndex s' = mSwapIndex s1"
    by (auto simp: add.assoc)
  with s1 show ?case by (simp add: add.assoc)
qed

lemma Adds_fit:
  assumes "store_ok s" "\<forall>V \<in> set Vs. length V \<le> 256"
    "mSwapUsed s + (\<Sum>V\<leftarrow>Vs. 8 + padded (length V)) \<le> mSwapSize s"
  shows "\<exists>s'. run_calls u s (map (Call_Add K) Vs) = Some s' \<and> store_ok s' \<and>
           records s' = records s @
             (case Vs of [] \<Rightarrow> []
              | V # Ws \<Rightarrow> new_record u K (\<forall>x \<in> set (records s). \<not> live K x) V #
                          map (new_record u K False) Ws) \<and>
           mSwapSize s' = mSwapSize s"
  using assms
proof (induction Vs arbitrary: s)
  case Nil
  then show ?case by simp
next
  case (Cons V Vs)
  from Cons.prems have len: "length V \<le> 256"
    and fits: "mSwapUsed s + 8 + padded (length V) \<le> mSwapSize s" by simp_all
  define fl where "fl = (\<forall>x \<in> set (records s). \<not> live K x)"
  from Add_fits[OF Cons.prems(1) len fits, of u K] obtain s1 where
    s1: "Add s u K V = Some (OT_ERROR_NONE, s1)" "store_ok s1"
    "records s1 = records s @ [new_record u K fl V]"
    "mSwapUsed s1 = mSwapUsed s + 8 + padded (length V)"
    "mSwapSize s1 = mSwapSize s" unfolding fl_def by blast
  define fl1 where "fl1 = (\<forall>x \<in> set (records s1). \<not> live K x)"
  have lv: "fl1 = False"
    by (simp add: fl1_def s1(3) live_def new_record_header)
  from Cons.IH[OF s1(2)] Cons.prems(2,3) s1(4,5) obtain s' where
    s': "run_calls u s1 (map (Call_Add K) Vs) = Some s'" "store_ok s'"
    "records s' = records s1 @
             (case Vs of [] \<Rightarrow> []
              | V # Ws \<Rightarrow> new_record u K fl1 V # map (new_record u K False) Ws)"
    "mSwapSize s' = mSwapSize s1"
    unfolding fl1_def by (auto simp: add.assoc)
  have "records s' = records s @ new_record u K fl V # map (new_record u K False) Vs"
    unfolding s'(3) lv by (cases Vs) (simp_all add: s1(3))
  with s1 s' show ?case by (simp add: fl_def)
qed

lemma hits_chain:
  "0 \<le> c \<Longrightarrow>
   hits K i (map (new_record u K False) Ws) c =
     (if c \<le> i \<and> i < c + int (length Ws) then [new_record u K False (Ws ! nat (i - c))] else [])"
proof (induction Ws arbitrary: c)
  case Nil
  then show ?case by simp
next
  case (Cons W Ws)
  have l: "live K (new_record u K False W)" "bump (new_record u K False W) c = c"
    by (simp_all add: live_def bump_def new_record_header)
  from Cons.prems have "0 \<le> c + 1" by simp
  note ih = Cons.IH[OF this]
  show ?case
  proof (cases "i = c")
    case True
    with ih show ?thesis by (simp add: l)
  next
    case False
    have e: "nat (i - c) = Suc (nat (i - (c + 1)))" if "c + 1 \<le> i"
      using that by arith
    from False ih show ?thesis
      by (auto simp: l e)
  qed
qed




lemma run_calls_append:
  "run_calls u s (cs @ ds) =
     (case run_calls u s cs of None \<Rightarrow> None | Some s' \<Rightarrow> run_calls u s' ds)"
  by (induction cs arbitrary: s) (simp_all split: option.splits)

lemma live_new [simp]: "live K' (new_record u K f V) = (K = K')"
  by (simp add: live_def new_record_header)

lemma bump_new [simp]: "bump (new_record u K f V) idx = (if f then 0 else idx)"
  by (simp add: bump_def new_record_header)

lemma valid_new [simp]:
  "IsValid (fst (new_record u K f V))" "IsFirst (fst (new_record u K f V)) = f"
  "mKey (fst (new_record u K f V)) = K"
  by (simp_all add: new_record_header)

lemma Get_new_record:
  assumes "log_ok s" "hits K i (records s) 0 = hs @ [new_record u K' f V]" "length V \<le> 256"
  shows "\<exists>b. Get s K i (Some buf) (Some l) =
               Some (OT_ERROR_NONE, Some b, Some (of_nat (length V))) \<and>
             take (min (unat l) (length V)) b = take (unat l) V"
proof -
  let ?x = "new_record u K' f V"
  from Get_last_hit(1)[OF assms(1,2), of buf l] obtain b where
    b: "Get s K i (Some buf) (Some l) = Some (OT_ERROR_NONE, Some b, Some (mLength (fst ?x)))"
    "take (min (unat l) (unat (mLength (fst ?x)))) b = take (min (unat l) (unat (mLength (fst ?x)))) (snd ?x)"
    by blast
  have m: "mLength (fst ?x) = of_nat (length V)" "unat (of_nat (length V) :: 16 word) = length V"
    by (simp_all add: new_record_header unat_of_nat_len assms(3))
  have "take (min (unat l) (length V)) (snd ?x) = take (min (unat l) (length V)) (take (length V) (snd ?x))"
    by simp
  also have "\<dots> = take (unat l) V"
    by (simp only: take_new_record) (simp add: min_def)
  finally have "take (min (unat l) (length V)) b = take (unat l) V"
    using b(2) by (simp only: m)
  with b(1) show ?thesis by (auto simp only: m)
qed

lemma hits_new_chain:
  assumes "\<forall>x \<in> set xs. \<not> live K x"
  shows "hits K (int i) (xs @ (case Vs of [] \<Rightarrow> []
            | V # Ws \<Rightarrow> new_record u K True V # map (new_record u K False) Ws)) 0 =
         (if i < length Vs then [new_record u K (i = 0) (Vs ! i)] else [])"
proof (cases Vs)
  case Nil
  then show ?thesis by (simp add: no_live_hits[OF assms])
next
  case (Cons V Ws)
  have e: "nat (int i - 1) = i - 1" by simp
  show ?thesis
    unfolding Cons hits_append no_live_hits[OF assms] no_live_counter[OF assms]
    by (cases i) (auto simp: hits_chain)
qed

lemma three_calls:
  "\<exists>s. run_calls u (Wipe blank) [Call_Add 7 [1], Call_Add 7 [2, 2], Call_Set 7 [9]] = Some s \<and>
       store_ok s \<and>
       records s = [new_record u 7 True [1], new_record u 7 False [2, 2], new_record u 7 True [9]]"
proof -
  have "\<exists>s'. run_calls u (Wipe blank) (map (Call_Add 7) [[1], [2, 2]]) = Some s' \<and> store_ok s' \<and>
           records s' = records (Wipe blank) @
             (case [[1], [2, 2]] of [] \<Rightarrow> []
              | V # Ws \<Rightarrow> new_record u 7 (\<forall>x \<in> set (records (Wipe blank)). \<not> live 7 x) V #
                          map (new_record u 7 False) Ws) \<and>
           mSwapSize s' = mSwapSize (Wipe blank)"
    by (rule Adds_fit) (simp_all add: wiped_blank padded_def)
  then obtain s2 where s2: "run_calls u (Wipe blank) [Call_Add 7 [1], Call_Add 7 [2, 2]] = Some s2"
    "store_ok s2" "records s2 = [new_record u 7 True [1], new_record u 7 False [2, 2]]"
    "mSwapSize s2 = 64"
    by (auto simp: wiped_blank)
  from store_ok_layout[OF s2(2)] have u2: "mSwapUsed s2 = 28"
    by (auto simp: s2(3) length_enc new_record_header padded_def)
  from Set_fits[OF s2(2), of "[9]" u 7] obtain s3 where
    s3: "Set s2 u 7 [9] = Some (OT_ERROR_NONE, s3)" "store_ok s3"
    "records s3 = records s2 @ [new_record u 7 True [9]]"
    by (auto simp: u2 s2(4) padded_def)
  have "run_calls u (Wipe blank) ([Call_Add 7 [1], Call_Add 7 [2, 2]] @ [Call_Set 7 [9]]) = Some s3"
    unfolding run_calls_append s2(1) by (simp add: s3(1))
  with s3 s2(3) show ?thesis by auto
qed

lemma hit_new:
  "length V \<le> 256 \<Longrightarrow>
   hit (Some l) (e, v, Some buf) (new_record u K f V) =
     (OT_ERROR_NONE, of_nat (length V),
      Some (take (min (unat l) (length V)) V @ drop (min (unat l) (length V)) buf))"
proof -
  assume len: "length V \<le> 256"
  let ?x = "new_record u K f V"
  define rl where "rl = (if mLength (fst ?x) < l then mLength (fst ?x) else l)"
  have rl: "unat rl = min (unat l) (length V)"
    by (auto simp: rl_def word_less_nat_alt min_def new_record_header unat_of_nat_len len)
  have "take (unat rl) (snd ?x) = take (unat rl) (take (length V) (snd ?x))"
    by (simp add: rl)
  then have t: "take (unat rl) (snd ?x) = take (unat rl) V"
    by (simp only: take_new_record)
  have "hit (Some l) (e, v, Some buf) ?x =
        (OT_ERROR_NONE, mLength (fst ?x), Some (take (unat rl) (snd ?x) @ drop (unat rl) buf))"
    by (simp add: hit_def copy_out_def Let_def rl_def)
  then show ?thesis
    using t by (simp only: rl new_record_header(6))
qed

declare Init_select.simps [simp del]

lemma le32_of_le32: "le32 (of_le32 [a, b, c, d]) = [a, b, c, d]"
  unfolding of_le32_def le32_def
  apply simp
  apply (intro conjI)
     apply (rule bit_word_eqI, auto simp: bit_simps dest: bit_imp_le_length)[1]
    apply (rule bit_word_eqI, auto simp: bit_simps dest: bit_imp_le_length)[1]
   apply (rule bit_word_eqI, auto simp: bit_simps dest: bit_imp_le_length)[1]
  apply (rule bit_word_eqI, auto simp: bit_simps dest: bit_imp_le_length)[1]
  done

lemma of_le32_ones: "of_le32 [0xff, 0xff, 0xff, 0xff] = - 1"
  by (simp add: of_le32_def)

lemma le32_ones: "le32 (- 1) = [0xff, 0xff, 0xff, 0xff]"
  unfolding of_le32_ones[symmetric] by (rule le32_of_le32)

lemma le32_kActive: "le32 kActive = [0xee, 0xc5, 0x5c, 0xbe]"
  by (simp add: le32_def kActive_def)

lemma of_le32_kActive: "of_le32 [0xee, 0xc5, 0x5c, 0xbe] = kActive"
  by (simp add: of_le32_def kActive_def)

lemma of_le32_ones_iff:
  assumes "length bs = 4"
  shows "(of_le32 bs = - 1) = (bs = [0xff, 0xff, 0xff, 0xff])"
proof -
  from assms obtain a b c d where bs: "bs = [a, b, c, d]"
    by (auto simp: length_Suc_conv numeral_eq_Suc)
  show ?thesis
  proof
    assume "of_le32 bs = - 1"
    then have "le32 (of_le32 bs) = le32 (- 1)" by simp
    then show "bs = [0xff, 0xff, 0xff, 0xff]"
      unfolding bs le32_of_le32 le32_ones .
  next
    assume "bs = [0xff, 0xff, 0xff, 0xff]"
    then show "of_le32 bs = - 1"
      by (simp only: of_le32_ones)
  qed
qed

lemma erased_from_nth:
  "erased_from r off = (\<forall>i. off \<le> i \<and> i < length r \<longrightarrow> r ! i = 0xff)"
  unfolding erased_from_def
proof
  assume a: "\<forall>b \<in> set (drop off r). b = 0xff"
  show "\<forall>i. off \<le> i \<and> i < length r \<longrightarrow> r ! i = 0xff"
  proof (intro allI impI)
    fix i assume i: "off \<le> i \<and> i < length r"
    then have "drop off r ! (i - off) = r ! i" by simp
    moreover from i have "i - off < length (drop off r)" by (simp add: diff_less_mono)
    ultimately show "r ! i = 0xff" using a by (metis nth_mem)
  qed
next
  assume a: "\<forall>i. off \<le> i \<and> i < length r \<longrightarrow> r ! i = 0xff"
  show "\<forall>b \<in> set (drop off r). b = 0xff"
  proof
    fix b assume "b \<in> set (drop off r)"
    then obtain j where "j < length (drop off r)" "b = drop off r ! j"
      by (metis in_set_conv_nth)
    with a[rule_format, of "off + j"] show "b = 0xff" by simp
  qed
qed

lemma read_ones_iff:
  "(otPlatFlashRead r off 4 = [0xff, 0xff, 0xff, 0xff]) =
   (\<forall>i. off \<le> i \<and> i < off + 4 \<and> i < length r \<longrightarrow> r ! i = 0xff)"
proof -
  have e: "[0xff, 0xff, 0xff, 0xff] = replicate 4 (0xff :: byte)"
    by (simp add: numeral_eq_Suc)
  have "(otPlatFlashRead r off 4 = replicate 4 0xff) =
        (\<forall>j < 4. otPlatFlashRead r off 4 ! j = 0xff)"
    by (auto simp: list_eq_iff_nth_eq)
  also have "\<dots> = (\<forall>j < 4. off + j < length r \<longrightarrow> r ! (off + j) = 0xff)"
    by (auto simp: otPlatFlashRead_def)
  also have "\<dots> = (\<forall>i. off \<le> i \<and> i < off + 4 \<and> i < length r \<longrightarrow> r ! i = 0xff)"
  proof (intro iffI allI impI)
    fix i assume a: "\<forall>j < 4. off + j < length r \<longrightarrow> r ! (off + j) = 0xff"
      and i: "off \<le> i \<and> i < off + 4 \<and> i < length r"
    from i have "i - off < 4" "off + (i - off) = i" by auto
    with a[rule_format, of "i - off"] i show "r ! i = 0xff" by simp
  next
    fix j assume a: "\<forall>i. off \<le> i \<and> i < off + 4 \<and> i < length r \<longrightarrow> r ! i = 0xff"
      and "j < 4" "off + j < length r"
    with a[rule_format, of "off + j"] show "r ! (off + j) = 0xff" by simp
  qed
  finally show ?thesis unfolding e .
qed

lemma SanitizeFreeSpace_loop_eq:
  assumes "length (area s (mSwapIndex s)) = mSwapSize s" "mSwapSize s + 4 \<le> 2 ^ 32"
  shows "SanitizeFreeSpace_loop s off = Some (\<not> erased_from (area s (mSwapIndex s)) off)"
proof (induction "mSwapSize s - off" arbitrary: off rule: less_induct)
  case less
  let ?r = "area s (mSwapIndex s)"
  show ?case
  proof (cases "off < mSwapSize s")
    case False
    then show ?thesis
      by (subst SanitizeFreeSpace_loop.simps) (simp add: erased_from_nth assms(1))
  next
    case True
    have u: "u32 (off + 4) = off + 4"
      using True assms(2) by (simp add: u32_id)
    have t: "(of_le32 (otPlatFlashRead ?r off 4) \<noteq> - 1) = (otPlatFlashRead ?r off 4 \<noteq> [0xff, 0xff, 0xff, 0xff])"
      by (simp add: of_le32_ones_iff)
    show ?thesis
    proof (cases "otPlatFlashRead ?r off 4 = [0xff, 0xff, 0xff, 0xff]")
      case False
      then have "\<not> erased_from ?r off"
        unfolding read_ones_iff erased_from_nth by blast
      with False True show ?thesis
        by (subst SanitizeFreeSpace_loop.simps) (simp add: t Let_def)
    next
      case eq: True
      have ih: "SanitizeFreeSpace_loop s (off + 4) = Some (\<not> erased_from ?r (off + 4))"
        using True by (intro less) simp
      have "erased_from ?r off = erased_from ?r (off + 4)"
        using eq unfolding read_ones_iff erased_from_nth
        by (metis add_leD1 not_le_imp_less)
      with eq True show ?thesis
        by (subst SanitizeFreeSpace_loop.simps) (simp add: of_le32_ones Let_def u ih)
    qed
  qed
qed

lemma SanitizeFreeSpace_ok:
  assumes "log_ok s" "mSwapSize s + 4 \<le> 2 ^ 32"
  shows "\<exists>s'. SanitizeFreeSpace s = Some s' \<and> store_ok s' \<and> mSwapSize s' = mSwapSize s \<and>
           (erased_from (area s (mSwapIndex s)) (mSwapUsed s) \<and> mSwapUsed s mod 4 = 0 \<longrightarrow> s' = s)"
proof -
  from assms(1) have len: "length (area s (mSwapIndex s)) = mSwapSize s"
    by (simp add: log_ok_def area_def)
  note lp = SanitizeFreeSpace_loop_eq[OF len assms(2)]
  from Swap_ok[OF assms(1)] obtain t where
    t: "Swap s = Some t" "store_ok t" "mSwapSize t = mSwapSize s" by blast
  show ?thesis
  proof (cases "mSwapUsed s mod 4 \<noteq> 0 \<or> \<not> erased_from (area s (mSwapIndex s)) (mSwapUsed s)")
    case True
    then have "SanitizeFreeSpace s = Some t"
      by (auto simp: SanitizeFreeSpace_def lp t(1))
    with t True show ?thesis by auto
  next
    case False
    then have "SanitizeFreeSpace s = Some s"
      by (auto simp: SanitizeFreeSpace_def lp)
    with False assms(1) show ?thesis by (auto simp: store_ok_def)
  qed
qed

lemma Init_scan_layout:
  assumes "area t (mSwapIndex t) = pre @ enc_all xs @ post" "list_all rec_ok xs"
    "mSwapUsed t = length pre" "length pre + length (enc_all xs) \<le> mSwapSize t"
    "8 \<le> mSwapSize t" "mSwapSize t < 2 ^ 32"
    "mSwapSize t < length pre + length (enc_all xs) + 8 \<or>
     \<not> (IsAddBeginSet (ReadHeader t (mSwapIndex t) (length pre + length (enc_all xs))) \<and>
        IsAddCompleteSet (ReadHeader t (mSwapIndex t) (length pre + length (enc_all xs))))"
  shows "Init_scan t = Some (t\<lparr>mSwapUsed := length pre + length (enc_all xs)\<rparr>)"
  using assms
proof (induction xs arbitrary: pre t)
  case Nil
  have lim: "u32 (mSwapSize t + 2 ^ 32 - sizeof_RecordHeader) = mSwapSize t - 8"
    unfolding sizeof_RecordHeader_def using Nil.prems(5,6) by (rule u32_sub)
  have "t\<lparr>mSwapUsed := length pre\<rparr> = t" using Nil.prems(3) by simp
  with Nil.prems show ?case
    by (subst Init_scan.simps) (simp only: lim, auto simp: Let_def)
next
  case (Cons x xs)
  then have ok: "rec_ok x" and oks: "list_all rec_ok xs" by simp_all
  have lim: "u32 (mSwapSize t + 2 ^ 32 - sizeof_RecordHeader) = mSwapSize t - 8"
    unfolding sizeof_RecordHeader_def using Cons.prems(5,6) by (rule u32_sub)
  have ar: "area t (mSwapIndex t) = pre @ enc x @ (enc_all xs @ post)"
    using Cons.prems(1) by simp
  have h: "ReadHeader t (mSwapIndex t) (mSwapUsed t) = fst x"
    unfolding Cons.prems(3) by (rule ReadHeader_at[OF ar])
  have le: "mSwapUsed t \<le> mSwapSize t - 8"
    using Cons.prems(3,4) by (simp add: length_enc)
  have nx: "u32 (mSwapUsed t + unat (GetSize (fst x))) = length pre + length (enc x)"
    using Cons.prems(3,4,6) by (simp add: size_rec_ok[OF ok] u32_id)
  have c: "IsAddBeginSet (fst x)" "IsAddCompleteSet (fst x)"
    using ok by (simp_all add: rec_ok_def)
  define t1 where "t1 = t\<lparr>mSwapUsed := length pre + length (enc x)\<rparr>"
  have ih: "Init_scan t1 = Some (t1\<lparr>mSwapUsed := length (pre @ enc x) + length (enc_all xs)\<rparr>)"
    apply (rule Cons.IH[of t1 "pre @ enc x"])
    using Cons.prems oks by (simp_all add: t1_def ReadHeader_def add.assoc)
  show ?case
    apply (subst Init_scan.simps)
    apply (simp only: lim le if_True Let_def h c not_True_eq_False if_False nx t1_def[symmetric] ih)
    apply (simp add: t1_def add.assoc)
    done
qed

lemma Init_select_eq:
  assumes "mSwapIndex t = 0"
  shows "Init_select t =
    (if SwapHeader_IsActive (otPlatFlashRead (area t 0) 0 SwapHeader_GetSize)
     then (t\<lparr>mSwapHeaderSize := SwapHeader_GetSize\<rparr>, False)
     else if SwapHeader_IsActive (otPlatFlashRead (area t 1) 0 SwapHeader_GetSize)
     then (t\<lparr>mSwapIndex := 1, mSwapHeaderSize := SwapHeader_GetSize\<rparr>, False)
     else (Wipe t, True))"
proof -
  have w: "Wipe (t\<lparr>mSwapIndex := Suc (Suc 0)\<rparr>) = Wipe t"
    by (simp add: Wipe_def area_update_def Let_def)
  have 2: "Init_select (t\<lparr>mSwapIndex := Suc (Suc 0)\<rparr>) = (Wipe t, True)"
    by (subst Init_select.simps) (simp add: w numeral_2_eq_2)
  have 1: "Init_select (t\<lparr>mSwapIndex := Suc 0\<rparr>) =
    (if SwapHeader_IsActive (otPlatFlashRead (area t 1) 0 SwapHeader_GetSize)
     then (t\<lparr>mSwapIndex := 1, mSwapHeaderSize := SwapHeader_GetSize\<rparr>, False)
     else (Wipe t, True))"
    by (subst Init_select.simps) (simp add: 2 area_def)
  show ?thesis
    by (subst Init_select.simps) (simp add: assms 1)
qed

lemma enc_all_mod4: "list_all rec_ok xs \<Longrightarrow> length (enc_all xs) mod 4 = 0"
proof (induction xs)
  case Nil
  then show ?case by simp
next
  case (Cons x xs)
  have "(8 + padded n) mod 4 = 0" for n
    unfolding padded_def by presburger
  with Cons.prems have "length (enc x) mod 4 = 0"
    by (simp add: length_enc rec_ok_def)
  moreover from Cons have "length (enc_all xs) mod 4 = 0" by simp
  ultimately show ?case
    unfolding enc_all_Cons length_append by presburger
qed

lemma wiped_area:
  assumes "length (area0 s) = 4 + k"
  shows "area0 (Wipe s) = le32 kActive @ replicate k 0xff"
proof -
  have w: "otPlatFlashWrite (replicate 4 0xff @ replicate k 0xff) 0 (le32 kActive)
           = le32 kActive @ replicate k 0xff"
    using write_append[of "le32 kActive" "replicate 4 0xff" "[]" "replicate k 0xff"]
    by (simp add: and_erased)
  have "area (Wipe s) 0 = otPlatFlashWrite (otPlatFlashErase (area s 0)) 0 (le32 kActive)"
    by (simp add: Wipe_def area_area_update)
  also have "otPlatFlashErase (area s 0) = replicate 4 0xff @ replicate k 0xff"
    using assms by (simp add: otPlatFlashErase_def area_def replicate_add)
  finally show ?thesis using w by (simp add: area_def)
qed

lemma Init_wipes:
  assumes "length (area0 s) = n" "n < 2 ^ 32"
    "\<not> SwapHeader_IsActive (otPlatFlashRead (area0 s) 0 4)"
    "\<not> SwapHeader_IsActive (otPlatFlashRead (area1 s) 0 4)"
  shows "Init s = Some (Wipe (s\<lparr>mSwapSize := n, mSwapIndex := 0\<rparr>))"
proof -
  define t where "t = s\<lparr>mSwapSize := otPlatFlashGetSwapSize s, mSwapIndex := 0\<rparr>"
  have t: "t = s\<lparr>mSwapSize := n, mSwapIndex := 0\<rparr>"
    using assms(1,2) by (simp add: t_def otPlatFlashGetSwapSize_def u32_id)
  have "Init_select t = (Wipe t, True)"
    using assms(3,4) by (subst Init_select_eq) (simp_all add: t area_def SwapHeader_GetSize_def)
  then show ?thesis
    unfolding Init_def t_def[symmetric] by (simp add: t)
qed

lemma Init_scanned:
  assumes len: "length (area0 s) = n" "length (area1 s) = n" and n: "8 \<le> n" "n < 2 ^ 32"
    and sel: "i = (if SwapHeader_IsActive (otPlatFlashRead (area0 s) 0 4) then 0 else 1)"
    and act: "SwapHeader_IsActive (otPlatFlashRead (area s i) 0 4)"
    and log: "parse (area s i) 4 u \<noteq> None" "u \<le> n"
    and stop: "n < u + 8 \<or>
               \<not> (IsAddBeginSet (ReadHeader s i u) \<and> IsAddCompleteSet (ReadHeader s i u))"
  defines "t \<equiv> s\<lparr>mSwapSize := n, mSwapUsed := u, mSwapIndex := i, mSwapHeaderSize := 4\<rparr>"
  shows "Init s = SanitizeFreeSpace t" "log_ok t" "u mod 4 = 0"
proof -
  define t0 where "t0 = s\<lparr>mSwapSize := otPlatFlashGetSwapSize s, mSwapIndex := 0\<rparr>"
  have t0: "t0 = s\<lparr>mSwapSize := n, mSwapIndex := 0\<rparr>"
    using len(1) n(2) by (simp add: t0_def otPlatFlashGetSwapSize_def u32_id)
  have i: "i < 2" using sel by simp
  have sl: "Init_select t0 = (t0\<lparr>mSwapIndex := i, mSwapHeaderSize := 4\<rparr>, False)"
  proof (cases "SwapHeader_IsActive (otPlatFlashRead (area0 s) 0 4)")
    case True
    with sel have "i = 0" by simp
    with True show ?thesis
      by (subst Init_select_eq) (simp_all add: t0 area_def SwapHeader_GetSize_def)
  next
    case False
    with sel have "i = 1" by simp
    with False act show ?thesis
      by (subst Init_select_eq) (simp_all add: t0 area_def SwapHeader_GetSize_def)
  qed
  define r where "r = area s i"
  have lr: "length r = n" using len by (simp add: r_def area_def)
  from log obtain xs where xs: "parse r 4 u = Some xs" by (auto simp: r_def)
  from parse_layout[OF xs] log(2) lr have
    p: "4 \<le> u" "take (u - 4) (drop 4 r) = enc_all xs" "list_all rec_ok xs" by simp_all
  have "drop 4 r = take (u - 4) (drop 4 r) @ drop (u - 4) (drop 4 r)"
    by (simp only: append_take_drop_id)
  then have "take 4 r @ drop 4 r = take 4 r @ enc_all xs @ drop u r"
    using p(1,2) by simp
  then have lay: "r = take 4 r @ enc_all xs @ drop u r"
    by (simp only: append_take_drop_id)
  have lx: "4 + length (enc_all xs) = u"
    using p(1,2) log(2) lr by (metis length_take length_drop min.absorb2 le_add_diff_inverse
        diff_le_mono)
  define t1 where "t1 = t0\<lparr>mSwapIndex := i, mSwapHeaderSize := 4, mSwapUsed := 4\<rparr>"
  have ar: "area t1 (mSwapIndex t1) = take 4 r @ enc_all xs @ drop u r"
    using lay by (simp add: t1_def t0 area_def r_def)
  have pl: "length (take 4 r) = 4" using lr n(1) by simp
  have sc: "Init_scan t1 = Some (t1\<lparr>mSwapUsed := length (take 4 r) + length (enc_all xs)\<rparr>)"
  proof (rule Init_scan_layout[OF ar p(3)])
    have rh: "ReadHeader t1 (mSwapIndex t1) = ReadHeader s i"
      by (rule ext) (simp add: ReadHeader_def t1_def t0 area_def)
    have sz: "mSwapSize t1 = n" by (simp add: t1_def t0)
    show "mSwapUsed t1 = length (take 4 r)" unfolding pl by (simp add: t1_def)
    show "length (take 4 r) + length (enc_all xs) \<le> mSwapSize t1"
      unfolding pl lx sz by (rule log(2))
    show "8 \<le> mSwapSize t1" "mSwapSize t1 < 2 ^ 32" unfolding sz by (rule n)+
    show "mSwapSize t1 < length (take 4 r) + length (enc_all xs) + 8 \<or>
      \<not> (IsAddBeginSet (ReadHeader t1 (mSwapIndex t1) (length (take 4 r) + length (enc_all xs))) \<and>
         IsAddCompleteSet (ReadHeader t1 (mSwapIndex t1) (length (take 4 r) + length (enc_all xs))))"
      unfolding pl lx sz rh by (rule stop)
  qed
  have e: "t1\<lparr>mSwapUsed := length (take 4 r) + length (enc_all xs)\<rparr> = t"
    unfolding pl lx by (simp add: t1_def t0 t_def)
  have t1': "(t0\<lparr>mSwapIndex := i, mSwapHeaderSize := 4\<rparr>)\<lparr>mSwapUsed :=
      mSwapHeaderSize (t0\<lparr>mSwapIndex := i, mSwapHeaderSize := 4\<rparr>)\<rparr> = t1"
    by (simp add: t1_def)
  show "Init s = SanitizeFreeSpace t"
    unfolding Init_def t0_def[symmetric] sl by (simp only: prod.case if_False t1' sc e option.case)
  have "area t (mSwapIndex t) = area s i" by (simp add: t_def area_def)
  then show "log_ok t"
    unfolding log_ok_def using len n i log
    by (simp add: t_def)
  show "u mod 4 = 0"
    using enc_all_mod4[OF p(3)] lx by presburger
qed

lemma Init_ok:
  assumes len: "length (area0 s) = n" "length (area1 s) = n" and n: "8 \<le> n" "n + 4 \<le> 2 ^ 32"
    and sel: "i = (if SwapHeader_IsActive (otPlatFlashRead (area0 s) 0 4) then 0 else 1)"
    and log: "SwapHeader_IsActive (otPlatFlashRead (area s i) 0 4) \<longrightarrow>
              parse (area s i) 4 u \<noteq> None \<and> u \<le> n \<and>
              (n < u + 8 \<or>
               \<not> (IsAddBeginSet (ReadHeader s i u) \<and> IsAddCompleteSet (ReadHeader s i u)))"
  shows "\<exists>s'. Init s = Some s' \<and> store_ok s' \<and> mSwapSize s' = n"
proof (cases "SwapHeader_IsActive (otPlatFlashRead (area s i) 0 4)")
  case True
  define t where "t = s\<lparr>mSwapSize := n, mSwapUsed := u, mSwapIndex := i, mSwapHeaderSize := 4\<rparr>"
  from n have n2: "n < 2 ^ 32" by simp
  from True log have l: "parse (area s i) 4 u \<noteq> None" "u \<le> n"
    "n < u + 8 \<or> \<not> (IsAddBeginSet (ReadHeader s i u) \<and> IsAddCompleteSet (ReadHeader s i u))"
    by simp_all
  note a = Init_scanned[OF len n(1) n2 sel True l, folded t_def]
  have "mSwapSize t + 4 \<le> 2 ^ 32" using n(2) by (simp add: t_def)
  from SanitizeFreeSpace_ok[OF a(2) this] a(1) show ?thesis
    by (auto simp: t_def)
next
  case False
  then have na: "\<not> SwapHeader_IsActive (otPlatFlashRead (area0 s) 0 4)"
    "\<not> SwapHeader_IsActive (otPlatFlashRead (area1 s) 0 4)"
    using sel by (auto simp: area_def split: if_splits)
  from n have n2: "n < 2 ^ 32" by simp
  define t where "t = s\<lparr>mSwapSize := n, mSwapIndex := 0\<rparr>"
  have "store_ok (Wipe t) \<and> records (Wipe t) = [] \<and> mSwapUsed (Wipe t) = 4 \<and>
         mSwapSize (Wipe t) = mSwapSize t \<and> mSwapIndex (Wipe t) = 0"
    by (rule Wipe_ok) (use len n in \<open>simp_all add: t_def\<close>)
  with Init_wipes[OF len(1) n2 na] show ?thesis
    by (simp add: t_def)
qed

lemma wiped_flash:
  "area0 (Wipe blank) = le32 kActive @ replicate 8 0xff @ replicate 52 0xff"
  "length (area0 (Wipe blank)) = 64" "length (area1 (Wipe blank)) = 64"
  "mSwapHeaderSize (Wipe blank) = 4"
proof -
  have "area0 (Wipe blank) = le32 kActive @ replicate 60 0xff"
    by (rule wiped_area) (simp add: blank_def)
  also have "replicate 60 (0xff :: byte) = replicate 8 0xff @ replicate 52 0xff"
    by (simp add: replicate_add[symmetric])
  finally show a: "area0 (Wipe blank) = le32 kActive @ replicate 8 0xff @ replicate 52 0xff" .
  then show "length (area0 (Wipe blank)) = 64" by (simp add: length_le32)
  show "length (area1 (Wipe blank)) = 64"
    by (simp add: Wipe_def blank_def area_update_def Let_def)
  show "mSwapHeaderSize (Wipe blank) = 4"
    by (simp add: Wipe_def SwapHeader_GetSize_def Let_def)
qed

lemma wiped_active: "SwapHeader_IsActive (otPlatFlashRead (area0 (Wipe blank)) 0 4)"
proof -
  have "otPlatFlashRead ([] @ le32 kActive @ replicate 8 0xff @ replicate 52 0xff) (length ([] :: byte list)) 4
        = take 4 (le32 kActive)"
    by (rule read_append) (simp add: length_le32)
  then show ?thesis
    by (simp add: wiped_flash(1) SwapHeader_IsActive_def le32_kActive of_le32_kActive)
qed

lemma wiped_frontier_header:
  "\<not> IsAddBeginSet (ReadHeader (Wipe blank) 0 4)"
proof -
  have "otPlatFlashRead (le32 kActive @ replicate 8 0xff @ replicate 52 0xff) (length (le32 kActive)) 8
        = take 8 (replicate 8 0xff)"
    by (rule read_append) simp
  then have r: "otPlatFlashRead (area0 (Wipe blank)) 4 8 = replicate 8 0xff"
    by (simp add: wiped_flash(1) length_le32)
  have e: "replicate 8 x = [x, x, x, x, x, x, x, x]" for x :: byte
    by (simp add: numeral_eq_Suc)
  have "mFlags (decode_header (replicate 8 0xff)) = - 1"
    unfolding e by (simp add: decode_header_def of_le16_def)
  then show ?thesis
    by (simp add: ReadHeader_def area_def r sizeof_RecordHeader_def flags_tests)
qed

lemma wiped_parse: "parse (area (Wipe blank) 0) 4 4 = Some []"
  by (subst parse.simps) simp

lemma wiped_fixed:
  "(Wipe blank)\<lparr>mSwapSize := 64, mSwapUsed := 4, mSwapIndex := 0, mSwapHeaderSize := 4\<rparr> = Wipe blank"
  using wiped_blank(3,4,5) wiped_flash(4) by simp

lemma blank_inactive:
  "\<not> SwapHeader_IsActive (otPlatFlashRead (area0 blank) 0 4)"
  "\<not> SwapHeader_IsActive (otPlatFlashRead (area1 blank) 0 4)"
  "blank\<lparr>mSwapSize := 64, mSwapIndex := 0\<rparr> = blank"
  by (simp_all add: blank_def SwapHeader_IsActive_def otPlatFlashRead_def of_le32_def kActive_def)

lemma used_layout: "store_ok t \<Longrightarrow> mSwapUsed t = 4 + length (enc_all (records t))"
  by (erule store_ok_layout) simp

lemma full_store:
  "\<exists>s. run_calls u (Wipe blank)
          [Call_Set k1 [a1, b1], Call_Set k2 [a2, b2], Call_Set k3 [a3, b3], Call_Set k4 [a4, b4],
           Call_Set k5 [a5, b5]] = Some s \<and> store_ok s \<and>
       records s = [new_record u k1 True [a1, b1], new_record u k2 True [a2, b2],
         new_record u k3 True [a3, b3], new_record u k4 True [a4, b4],
         new_record u k5 True [a5, b5]] \<and>
       mSwapUsed s = 64 \<and> mSwapSize s = 64 \<and> mSwapHeaderSize s = 4"
proof -
  let ?kvs = "[(k1, [a1, b1]), (k2, [a2, b2]), (k3, [a3, b3]), (k4, [a4, b4]), (k5, [a5, b5])]"
  have "\<exists>s'. run_calls u (Wipe blank) (map (\<lambda>kv. Call_Set (fst kv) (snd kv)) ?kvs) = Some s' \<and>
           store_ok s' \<and>
           records s' = records (Wipe blank) @ map (\<lambda>kv. new_record u (fst kv) True (snd kv)) ?kvs \<and>
           mSwapUsed s' = mSwapUsed (Wipe blank) + (\<Sum>kv\<leftarrow>?kvs. 8 + padded (length (snd kv))) \<and>
           mSwapSize s' = mSwapSize (Wipe blank) \<and> mSwapIndex s' = mSwapIndex (Wipe blank)"
    by (rule Sets_fit) (simp_all add: wiped_blank padded_2)
  then obtain s where s: "run_calls u (Wipe blank) (map (\<lambda>kv. Call_Set (fst kv) (snd kv)) ?kvs) = Some s"
    "store_ok s"
    "records s = records (Wipe blank) @ map (\<lambda>kv. new_record u (fst kv) True (snd kv)) ?kvs"
    "mSwapUsed s = mSwapUsed (Wipe blank) + (\<Sum>kv\<leftarrow>?kvs. 8 + padded (length (snd kv)))"
    "mSwapSize s = mSwapSize (Wipe blank)" by blast
  from s(2) have h: "mSwapHeaderSize s = 4" by (simp add: store_ok_def log_ok_def)
  show ?thesis
    apply (rule exI[of _ s])
    using s h by (simp add: wiped_blank padded_2)
qed

text \<open>
  \<open>Add\<close> on a consistent store when the record fits an empty area, that is when
  \<open>swapHeaderSize + RecordSize \<le> swapSize\<close>, so that \<open>mSwapSize - record.GetSize()\<close>
  does not wrap around.  When \<open>swapUsed + RecordSize \<le> swapSize\<close> the record is
  appended, \<open>swapUsed\<close> advances by the size and the call returns OK.  Otherwise
  \<open>Swap\<close> runs; if the record still does not fit the call returns NO_BUFS in the state
  \<open>Swap\<close> left, else the record is appended to the compacted log.
\<close>

lemma Add_first_cases:
  assumes "store_ok s" and "length V \<le> kMaxDataSize"
    and "mSwapHeaderSize s + (8 + padded (length V)) \<le> mSwapSize s"
  shows "padded (length V) = (length V + 3) div 4 * 4 \<and>
         unat (GetSize ((RecordHeader_Init K f)\<lparr>mLength := of_nat (length V)\<rparr>))
           = 8 + padded (length V) \<and>
         (mSwapUsed s + (8 + padded (length V)) \<le> mSwapSize s \<longrightarrow>
            (\<exists>s'. Add_first s u K f V = Some (OT_ERROR_NONE, s') \<and>
                  records s' = records s @ [new_record u K f V] \<and>
                  mSwapUsed s' = mSwapUsed s + (8 + padded (length V)) \<and>
                  mSwapIndex s' = mSwapIndex s)) \<and>
         (mSwapSize s < mSwapUsed s + (8 + padded (length V)) \<longrightarrow>
            (\<exists>t. Swap s = Some t \<and> store_ok t \<and> records t = compact (records s) \<and>
               (if mSwapSize s < mSwapUsed t + (8 + padded (length V))
                then Add_first s u K f V = Some (OT_ERROR_NO_BUFS, t)
                else \<exists>s'. Add_first s u K f V = Some (OT_ERROR_NONE, s') \<and>
                       records s' = records t @ [new_record u K f V] \<and>
                       mSwapUsed s' = mSwapUsed t + (8 + padded (length V)) \<and>
                       mSwapIndex s' = mSwapIndex t))) \<and>
         fst (new_record u K f V) =
           SetAddCompleteFlag ((RecordHeader_Init K f)\<lparr>mLength := of_nat (length V)\<rparr>) \<and>
         IsAddCompleteSet (fst (new_record u K f V)) \<and>
         \<not> IsAddCompleteSet ((RecordHeader_Init K f)\<lparr>mLength := of_nat (length V)\<rparr>)"
proof -
  from assms(2) have len: "length V \<le> 256" by (simp add: kMaxDataSize_def)
  from assms(1) have h: "mSwapHeaderSize s = 4" by (simp add: store_ok_def log_ok_def)
  from assms(3) have room: "4 + 8 + padded (length V) \<le> mSwapSize s" by (simp add: h)
  have fits: "\<exists>s'. Add_first s u K f V = Some (OT_ERROR_NONE, s') \<and>
                  records s' = records s @ [new_record u K f V] \<and>
                  mSwapUsed s' = mSwapUsed s + (8 + padded (length V)) \<and>
                  mSwapIndex s' = mSwapIndex s"
    if "mSwapUsed s + (8 + padded (length V)) \<le> mSwapSize s"
  proof -
    from that have "mSwapUsed s + 8 + padded (length V) \<le> mSwapSize s" by simp
    from Add_first_fits[OF assms(1) len this, of u K f] show ?thesis
      by (auto simp: add.assoc)
  qed
  have swap: "\<exists>t. Swap s = Some t \<and> store_ok t \<and> records t = compact (records s) \<and>
               (if mSwapSize s < mSwapUsed t + (8 + padded (length V))
                then Add_first s u K f V = Some (OT_ERROR_NO_BUFS, t)
                else \<exists>s'. Add_first s u K f V = Some (OT_ERROR_NONE, s') \<and>
                       records s' = records t @ [new_record u K f V] \<and>
                       mSwapUsed s' = mSwapUsed t + (8 + padded (length V)) \<and>
                       mSwapIndex s' = mSwapIndex t)"
    if "mSwapSize s < mSwapUsed s + (8 + padded (length V))"
  proof -
    from that have "mSwapSize s < mSwapUsed s + 8 + padded (length V)" by simp
    from Add_first_swap[OF assms(1) len this room, of u K f] obtain t where
      t: "Swap s = Some t" "store_ok t" "records t = compact (records s)"
      "if mSwapSize s < mSwapUsed t + 8 + padded (length V)
            then Add_first s u K f V = Some (OT_ERROR_NO_BUFS, t)
            else \<exists>s'. Add_first s u K f V = Some (OT_ERROR_NONE, s') \<and> store_ok s' \<and>
                   records s' = records t @ [new_record u K f V] \<and>
                   mSwapUsed s' = mSwapUsed t + 8 + padded (length V) \<and>
                   mSwapIndex s' = mSwapIndex t \<and> mSwapSize s' = mSwapSize s"
      by blast
    show ?thesis
      apply (rule exI[of _ t])
      using t by (auto simp: add.assoc split: if_splits)
  qed
  have nc: "\<not> IsAddCompleteSet ((RecordHeader_Init K f)\<lparr>mLength := of_nat (length V)\<rparr>)"
  proof -
    have "mFlags ((RecordHeader_Init K f)\<lparr>mLength := of_nat (length V)\<rparr>)
          = mFlags (RecordHeader_Init K f)" by simp
    then show ?thesis
      by (cases f) (simp_all only: flags_tests flags_init, simp_all)
  qed
  show ?thesis
    apply (intro conjI impI)
    subgoal by (simp add: padded_def)
    subgoal by (rule Add_first_size[OF len])
    subgoal by (rule fits)
    subgoal by (rule swap)
    subgoal by (simp add: new_record_def)
    subgoal by (simp add: new_record_header)
    subgoal by (rule nc)
    done
qed

lemma Add_first_cases_on_blank:
  "store_ok (Wipe blank) \<and> length [0xAA, 0xBB :: byte] \<le> kMaxDataSize \<and>
   mSwapHeaderSize (Wipe blank) + (8 + padded (length [0xAA, 0xBB :: byte])) \<le> mSwapSize (Wipe blank) \<and>
   mSwapUsed (Wipe blank) + (8 + padded (length [0xAA, 0xBB :: byte])) \<le> mSwapSize (Wipe blank) \<and>
   (\<exists>s'. Add_first (Wipe blank) (\<lambda>_. 0) 1 True [0xAA, 0xBB] = Some (OT_ERROR_NONE, s') \<and>
         records s' = [new_record (\<lambda>_. 0) 1 True [0xAA, 0xBB]] \<and> mSwapUsed s' = 16) \<and>
   (case run_calls (\<lambda>_. 0) (Wipe blank)
           [Call_Set 1 [1, 1], Call_Set 2 [2, 2], Call_Set 3 [3, 3], Call_Set 4 [4, 4],
            Call_Set 5 [5, 5]] of
      None \<Rightarrow> False
    | Some s \<Rightarrow>
        store_ok s \<and>
        mSwapHeaderSize s + (8 + padded (length [0xAA, 0xBB :: byte])) \<le> mSwapSize s \<and>
        mSwapSize s < mSwapUsed s + (8 + padded (length [0xAA, 0xBB :: byte])) \<and>
        (\<exists>t. Swap s = Some t \<and> records t = records s \<and>
           Add_first s (\<lambda>_. 0) 6 True [0xAA, 0xBB] = Some (OT_ERROR_NO_BUFS, t))) \<and>
   (case run_calls (\<lambda>_. 0) (Wipe blank)
           [Call_Set 1 [1, 1], Call_Set 1 [2, 2], Call_Set 1 [3, 3], Call_Set 1 [4, 4],
            Call_Set 1 [5, 5]] of
      None \<Rightarrow> False
    | Some s \<Rightarrow>
        store_ok s \<and>
        mSwapHeaderSize s + (8 + padded (length [0xAA, 0xBB :: byte])) \<le> mSwapSize s \<and>
        mSwapSize s < mSwapUsed s + (8 + padded (length [0xAA, 0xBB :: byte])) \<and>
        (\<exists>t s'. Swap s = Some t \<and> records t = [new_record (\<lambda>_. 0) 1 True [5, 5]] \<and>
           Add_first s (\<lambda>_. 0) 6 True [0xAA, 0xBB] = Some (OT_ERROR_NONE, s') \<and>
           records s' = [new_record (\<lambda>_. 0) 1 True [5, 5],
                         new_record (\<lambda>_. 0) 6 True [0xAA, 0xBB]] \<and>
           mSwapUsed s' = 28))"
proof -
  let ?u = "\<lambda>_ :: nat. 0 :: byte"
  let ?V = "[0xAA, 0xBB] :: byte list"
  have len: "length ?V \<le> kMaxDataSize" by (simp add: kMaxDataSize_def)
  have sz: "8 + padded (length ?V) = 12" by (simp add: padded_2)
  have a: "store_ok (Wipe blank) \<and> length ?V \<le> kMaxDataSize \<and>
   mSwapHeaderSize (Wipe blank) + (8 + padded (length ?V)) \<le> mSwapSize (Wipe blank) \<and>
   mSwapUsed (Wipe blank) + (8 + padded (length ?V)) \<le> mSwapSize (Wipe blank) \<and>
   (\<exists>s'. Add_first (Wipe blank) ?u 1 True ?V = Some (OT_ERROR_NONE, s') \<and>
         records s' = [new_record ?u 1 True ?V] \<and> mSwapUsed s' = 16)"
  proof -
    have room: "mSwapHeaderSize (Wipe blank) + (8 + padded (length ?V)) \<le> mSwapSize (Wipe blank)"
      unfolding sz by (simp add: wiped_blank wiped_flash)
    have fit: "mSwapUsed (Wipe blank) + (8 + padded (length ?V)) \<le> mSwapSize (Wipe blank)"
      unfolding sz by (simp add: wiped_blank)
    note th = Add_first_cases[OF wiped_blank(1) len room, of 1 True ?u]
    from th[THEN conjunct2, THEN conjunct2, THEN conjunct1, rule_format, OF fit]
    have "\<exists>s'. Add_first (Wipe blank) ?u 1 True ?V = Some (OT_ERROR_NONE, s') \<and>
         records s' = [new_record ?u 1 True ?V] \<and> mSwapUsed s' = 16"
      unfolding sz by (auto simp: wiped_blank)
    with wiped_blank(1) len room fit show ?thesis by (intro conjI)
  qed
  have b: "case run_calls ?u (Wipe blank)
           [Call_Set 1 [1, 1], Call_Set 2 [2, 2], Call_Set 3 [3, 3], Call_Set 4 [4, 4],
            Call_Set 5 [5, 5]] of
      None \<Rightarrow> False
    | Some s \<Rightarrow>
        store_ok s \<and>
        mSwapHeaderSize s + (8 + padded (length ?V)) \<le> mSwapSize s \<and>
        mSwapSize s < mSwapUsed s + (8 + padded (length ?V)) \<and>
        (\<exists>t. Swap s = Some t \<and> records t = records s \<and>
           Add_first s ?u 6 True ?V = Some (OT_ERROR_NO_BUFS, t))"
  proof -
    from full_store[of ?u 1 1 1 2 2 2 3 3 3 4 4 4 5 5 5] obtain s where
      s: "run_calls ?u (Wipe blank)
           [Call_Set 1 [1, 1], Call_Set 2 [2, 2], Call_Set 3 [3, 3], Call_Set 4 [4, 4],
            Call_Set 5 [5, 5]] = Some s" "store_ok s"
        "records s = [new_record ?u 1 True [1, 1], new_record ?u 2 True [2, 2],
           new_record ?u 3 True [3, 3], new_record ?u 4 True [4, 4], new_record ?u 5 True [5, 5]]"
        "mSwapUsed s = 64" "mSwapSize s = 64" "mSwapHeaderSize s = 4"
      by blast
    have room: "mSwapHeaderSize s + (8 + padded (length ?V)) \<le> mSwapSize s"
      unfolding sz by (simp add: s)
    have nofit: "mSwapSize s < mSwapUsed s + (8 + padded (length ?V))"
      unfolding sz by (simp add: s)
    note th = Add_first_cases[OF s(2) len room, of 6 True ?u]
    from th[THEN conjunct2, THEN conjunct2, THEN conjunct2, THEN conjunct1, rule_format, OF nofit]
    obtain t where t: "Swap s = Some t" "store_ok t" "records t = compact (records s)"
      "if mSwapSize s < mSwapUsed t + (8 + padded (length ?V))
       then Add_first s ?u 6 True ?V = Some (OT_ERROR_NO_BUFS, t)
       else \<exists>s'. Add_first s ?u 6 True ?V = Some (OT_ERROR_NONE, s') \<and>
              records s' = records t @ [new_record ?u 6 True ?V] \<and>
              mSwapUsed s' = mSwapUsed t + (8 + padded (length ?V)) \<and>
              mSwapIndex s' = mSwapIndex t"
      by blast
    have c: "compact (records s) = records s"
      unfolding s(3) by (simp add: shadowed_def)
    have "mSwapUsed t = 4 + length (enc_all (records t))"
      by (rule used_layout[OF t(2)])
    moreover have rt: "records t = records s"
      using t(3) c by simp
    ultimately have u: "mSwapUsed t = 64"
      unfolding rt s(3) by (simp add: length_enc new_record_header padded_2)
    from t(4) have "Add_first s ?u 6 True ?V = Some (OT_ERROR_NO_BUFS, t)"
      unfolding sz u s(5) by simp
    with t(1) rt have "\<exists>t. Swap s = Some t \<and> records t = records s \<and>
           Add_first s ?u 6 True ?V = Some (OT_ERROR_NO_BUFS, t)" by simp
    with s(2) room nofit show ?thesis
      by (simp only: s(1) option.case simp_thms)
  qed
  have c: "case run_calls ?u (Wipe blank)
           [Call_Set 1 [1, 1], Call_Set 1 [2, 2], Call_Set 1 [3, 3], Call_Set 1 [4, 4],
            Call_Set 1 [5, 5]] of
      None \<Rightarrow> False
    | Some s \<Rightarrow>
        store_ok s \<and>
        mSwapHeaderSize s + (8 + padded (length ?V)) \<le> mSwapSize s \<and>
        mSwapSize s < mSwapUsed s + (8 + padded (length ?V)) \<and>
        (\<exists>t s'. Swap s = Some t \<and> records t = [new_record ?u 1 True [5, 5]] \<and>
           Add_first s ?u 6 True ?V = Some (OT_ERROR_NONE, s') \<and>
           records s' = [new_record ?u 1 True [5, 5], new_record ?u 6 True ?V] \<and>
           mSwapUsed s' = 28)"
  proof -
    from full_store[of ?u 1 1 1 1 2 2 1 3 3 1 4 4 1 5 5] obtain s where
      s: "run_calls ?u (Wipe blank)
           [Call_Set 1 [1, 1], Call_Set 1 [2, 2], Call_Set 1 [3, 3], Call_Set 1 [4, 4],
            Call_Set 1 [5, 5]] = Some s" "store_ok s"
        "records s = [new_record ?u 1 True [1, 1], new_record ?u 1 True [2, 2],
           new_record ?u 1 True [3, 3], new_record ?u 1 True [4, 4], new_record ?u 1 True [5, 5]]"
        "mSwapUsed s = 64" "mSwapSize s = 64" "mSwapHeaderSize s = 4"
      by blast
    have room: "mSwapHeaderSize s + (8 + padded (length ?V)) \<le> mSwapSize s"
      unfolding sz by (simp add: s)
    have nofit: "mSwapSize s < mSwapUsed s + (8 + padded (length ?V))"
      unfolding sz by (simp add: s)
    note th = Add_first_cases[OF s(2) len room, of 6 True ?u]
    from th[THEN conjunct2, THEN conjunct2, THEN conjunct2, THEN conjunct1, rule_format, OF nofit]
    obtain t where t: "Swap s = Some t" "store_ok t" "records t = compact (records s)"
      "if mSwapSize s < mSwapUsed t + (8 + padded (length ?V))
       then Add_first s ?u 6 True ?V = Some (OT_ERROR_NO_BUFS, t)
       else \<exists>s'. Add_first s ?u 6 True ?V = Some (OT_ERROR_NONE, s') \<and>
              records s' = records t @ [new_record ?u 6 True ?V] \<and>
              mSwapUsed s' = mSwapUsed t + (8 + padded (length ?V)) \<and>
              mSwapIndex s' = mSwapIndex t"
      by blast
    have c: "compact (records s) = [new_record ?u 1 True [5, 5]]"
      unfolding s(3) by (simp add: shadowed_def)
    have rt: "records t = [new_record ?u 1 True [5, 5]]"
      using t(3) c by simp
    have "mSwapUsed t = 4 + length (enc_all (records t))"
      by (rule used_layout[OF t(2)])
    then have u: "mSwapUsed t = 16"
      unfolding rt by (simp add: length_enc new_record_header padded_2)
    from t(4) have "\<exists>s'. Add_first s ?u 6 True ?V = Some (OT_ERROR_NONE, s') \<and>
              records s' = [new_record ?u 1 True [5, 5], new_record ?u 6 True ?V] \<and>
              mSwapUsed s' = 28"
      unfolding sz u s(5) rt by auto
    with t(1) rt have "\<exists>t s'. Swap s = Some t \<and> records t = [new_record ?u 1 True [5, 5]] \<and>
           Add_first s ?u 6 True ?V = Some (OT_ERROR_NONE, s') \<and>
           records s' = [new_record ?u 1 True [5, 5], new_record ?u 6 True ?V] \<and>
           mSwapUsed s' = 28" by auto
    with s(2) room nofit show ?thesis
      by (simp only: s(1) option.case simp_thms)
  qed
  from a b c show ?thesis by (intro conjI) (elim conjE, assumption)+
qed

text \<open>
  A consistent store satisfies the frontier invariant, and \<open>Init\<close>, \<open>Wipe\<close>,
  \<open>Delete\<close>, and \<open>Set\<close> and \<open>Add\<close> of a record that fits an empty area, return
  and leave a consistent store.
\<close>

lemma store_ok_preserved:
  "(length (area0 d) = n \<and> length (area1 d) = n \<and> 8 \<le> n \<and> n + 4 \<le> 2 ^ 32 \<and>
    i = (if SwapHeader_IsActive (otPlatFlashRead (area0 d) 0 4) then 0 else 1) \<and>
    (SwapHeader_IsActive (otPlatFlashRead (area d i) 0 4) \<longrightarrow>
       parse (area d i) 4 u \<noteq> None \<and> u \<le> n \<and>
       (n < u + sizeof_RecordHeader \<or>
        \<not> (IsAddBeginSet (ReadHeader d i u) \<and> IsAddCompleteSet (ReadHeader d i u)))) \<longrightarrow>
    (\<exists>s'. Init d = Some s' \<and> store_ok s' \<and> frontier_invariant s')) \<and>
   (store_ok s \<longrightarrow>
      frontier_invariant s \<and>
      store_ok (Wipe s) \<and> frontier_invariant (Wipe s) \<and>
      (\<exists>e s'. Delete s K j = Some (e, s') \<and> store_ok s' \<and> frontier_invariant s') \<and>
      (length V \<le> kMaxDataSize \<and> mSwapHeaderSize s + (8 + padded (length V)) \<le> mSwapSize s \<longrightarrow>
         (\<exists>e s'. Set s un K V = Some (e, s') \<and> store_ok s' \<and> frontier_invariant s') \<and>
         (\<exists>e s'. Add s un K V = Some (e, s') \<and> store_ok s' \<and> frontier_invariant s')))"
proof (intro conjI impI)
  assume h: "length (area0 d) = n \<and> length (area1 d) = n \<and> 8 \<le> n \<and> n + 4 \<le> 2 ^ 32 \<and>
    i = (if SwapHeader_IsActive (otPlatFlashRead (area0 d) 0 4) then 0 else 1) \<and>
    (SwapHeader_IsActive (otPlatFlashRead (area d i) 0 4) \<longrightarrow>
       parse (area d i) 4 u \<noteq> None \<and> u \<le> n \<and>
       (n < u + sizeof_RecordHeader \<or>
        \<not> (IsAddBeginSet (ReadHeader d i u) \<and> IsAddCompleteSet (ReadHeader d i u))))"
  note hs = h[unfolded sizeof_RecordHeader_def]
  note h' = hs[THEN conjunct1] hs[THEN conjunct2, THEN conjunct1]
    hs[THEN conjunct2, THEN conjunct2, THEN conjunct1]
    hs[THEN conjunct2, THEN conjunct2, THEN conjunct2, THEN conjunct1]
    hs[THEN conjunct2, THEN conjunct2, THEN conjunct2, THEN conjunct2, THEN conjunct1]
    hs[THEN conjunct2, THEN conjunct2, THEN conjunct2, THEN conjunct2, THEN conjunct2]
  from Init_ok[OF h'] show "\<exists>s'. Init d = Some s' \<and> store_ok s' \<and> frontier_invariant s'"
    using store_ok_frontier by blast
next
  assume ok: "store_ok s"
  then show "frontier_invariant s" by (rule store_ok_frontier)
  from ok have l: "length (area0 s) = mSwapSize s" "length (area1 s) = mSwapSize s"
    "mSwapSize s < 2 ^ 32" "mSwapUsed s \<le> mSwapSize s"
    by (simp_all add: store_ok_def log_ok_def)
  from store_ok_used_ge[OF ok] l(4) have "4 \<le> mSwapSize s" by simp
  from Wipe_ok[OF l(1,2) this l(3)] show w: "store_ok (Wipe s)" by simp
  then show "frontier_invariant (Wipe s)" by (rule store_ok_frontier)
  from Delete_ok[OF ok, of K j]
  show "\<exists>e s'. Delete s K j = Some (e, s') \<and> store_ok s' \<and> frontier_invariant s'"
    using store_ok_frontier by blast
next
  assume ok: "store_ok s"
    and h: "length V \<le> kMaxDataSize \<and> mSwapHeaderSize s + (8 + padded (length V)) \<le> mSwapSize s"
  from ok have "mSwapHeaderSize s = 4" by (simp add: store_ok_def log_ok_def)
  with h have len: "length V \<le> 256" and room: "4 + 8 + padded (length V) \<le> mSwapSize s"
    by (simp_all add: kMaxDataSize_def)
  from Add_first_total[OF ok len room, of un K True]
  show "\<exists>e s'. Set s un K V = Some (e, s') \<and> store_ok s' \<and> frontier_invariant s'"
    unfolding Set_def using store_ok_frontier by blast
  from Add_total[OF ok len room, of un K]
  show "\<exists>e s'. Add s un K V = Some (e, s') \<and> store_ok s' \<and> frontier_invariant s'"
    using store_ok_frontier by blast
qed

lemma store_ok_preserved_on_blank:
  "length (area0 (Wipe blank)) = 64 \<and> length (area1 (Wipe blank)) = 64 \<and>
   SwapHeader_IsActive (otPlatFlashRead (area (Wipe blank) 0) 0 4) \<and>
   parse (area (Wipe blank) 0) 4 4 \<noteq> None \<and>
   \<not> (IsAddBeginSet (ReadHeader (Wipe blank) 0 4) \<and> IsAddCompleteSet (ReadHeader (Wipe blank) 0 4)) \<and>
   (\<exists>s'. Init (Wipe blank) = Some s' \<and> store_ok s' \<and> frontier_invariant s') \<and>
   store_ok (Wipe blank) \<and> length [0xAA, 0xBB :: byte] \<le> kMaxDataSize \<and>
   mSwapHeaderSize (Wipe blank) + (8 + padded (length [0xAA, 0xBB :: byte])) \<le> mSwapSize (Wipe blank) \<and>
   frontier_invariant (Wipe blank) \<and>
   frontier_invariant (Wipe (Wipe blank)) \<and>
   (\<exists>e s'. Delete (Wipe blank) 1 0 = Some (e, s') \<and> frontier_invariant s') \<and>
   (\<exists>e s'. Set (Wipe blank) (\<lambda>_. 0) 1 [0xAA, 0xBB] = Some (e, s') \<and> frontier_invariant s') \<and>
   (\<exists>e s'. Add (Wipe blank) (\<lambda>_. 0) 1 [0xAA, 0xBB] = Some (e, s') \<and> frontier_invariant s')"
proof -
  let ?V = "[0xAA, 0xBB] :: byte list"
  note th = store_ok_preserved[of "Wipe blank" 64 0 4 "Wipe blank" 1 0 ?V "\<lambda>_. 0"]
  have a0: "area (Wipe blank) 0 = area0 (Wipe blank)" by (simp add: area_def)
  have act: "SwapHeader_IsActive (otPlatFlashRead (area (Wipe blank) 0) 0 4)"
    unfolding a0 by (rule wiped_active)
  have p: "parse (area (Wipe blank) 0) 4 4 \<noteq> None" by (simp add: wiped_parse)
  have st: "\<not> (IsAddBeginSet (ReadHeader (Wipe blank) 0 4) \<and> IsAddCompleteSet (ReadHeader (Wipe blank) 0 4))"
    using wiped_frontier_header by simp
  have len: "length ?V \<le> kMaxDataSize" by (simp add: kMaxDataSize_def)
  have room: "mSwapHeaderSize (Wipe blank) + (8 + padded (length ?V)) \<le> mSwapSize (Wipe blank)"
    by (simp add: wiped_blank wiped_flash padded_2)
  have i: "\<exists>s'. Init (Wipe blank) = Some s' \<and> store_ok s' \<and> frontier_invariant s'"
    apply (rule th[THEN conjunct1, rule_format])
    using act p st wiped_active by (simp add: wiped_flash)
  note o = th[THEN conjunct2, rule_format, OF wiped_blank(1)]
  note sa = o[THEN conjunct2, THEN conjunct2, THEN conjunct2, THEN conjunct2, rule_format,
      OF conjI[OF len room]]
  have d: "\<exists>e s'. Delete (Wipe blank) 1 0 = Some (e, s') \<and> frontier_invariant s'"
    using o[THEN conjunct2, THEN conjunct2, THEN conjunct2, THEN conjunct1] by blast
  have s: "\<exists>e s'. Set (Wipe blank) (\<lambda>_. 0) 1 ?V = Some (e, s') \<and> frontier_invariant s'"
    using sa[THEN conjunct1] by blast
  have a: "\<exists>e s'. Add (Wipe blank) (\<lambda>_. 0) 1 ?V = Some (e, s') \<and> frontier_invariant s'"
    using sa[THEN conjunct2] by blast
  from wiped_flash(2,3) act p st i wiped_blank(1) len room o[THEN conjunct1]
    o[THEN conjunct2, THEN conjunct2, THEN conjunct1] d s a
  show ?thesis by (intro conjI)
qed

lemma write_overflow:
  "otPlatFlashWrite r off bs = otPlatFlashWrite r off (take (length r - off) bs)"
  by (rule nth_equalityI) (auto simp: otPlatFlashWrite_def)

lemma Add_first_oversized:
  assumes ok: "store_ok s" and len: "length V \<le> 256"
    and big: "mSwapSize s < 8 + padded (length V)"
  shows "\<exists>s'. Add_first s u K f V = Some (OT_ERROR_NONE, s') \<and>
           mSwapUsed s' = mSwapUsed s + (8 + padded (length V)) \<and>
           mSwapIndex s' = mSwapIndex s \<and> mSwapSize s' = mSwapSize s \<and>
           mSwapHeaderSize s' = mSwapHeaderSize s \<and>
           area s' (1 - mSwapIndex s) = area s (1 - mSwapIndex s) \<and>
           area s' (mSwapIndex s) =
             otPlatFlashWrite
               (otPlatFlashWrite (area s (mSwapIndex s)) (mSwapUsed s)
                  (encode_header ((RecordHeader_Init K f)\<lparr>mLength := of_nat (length V)\<rparr>) @
                   snd (new_record u K f V)))
               (mSwapUsed s) (encode_header (fst (new_record u K f V)))"
proof -
  from ok have f: "mSwapHeaderSize s = 4" "mSwapSize s < 2 ^ 32" "mSwapUsed s \<le> mSwapSize s"
    "mSwapIndex s < 2"
    by (simp_all add: store_ok_def log_ok_def)
  define sz where "sz = 8 + padded (length V)"
  have sz: "unat (GetSize ((RecordHeader_Init K f)\<lparr>mLength := of_nat (length V)\<rparr>)) = sz"
    by (simp add: Add_first_size len sz_def)
  have b: "sz \<le> 264" using padded_bound[OF len] by (simp add: sz_def)
  have c1: "length V \<le> kMaxDataSize" using len by (simp add: kMaxDataSize_def)
  have c2: "u32 (mSwapSize s + 2 ^ 32 - sz) = mSwapSize s + 2 ^ 32 - sz"
    using big by (intro u32_id) (simp add: sz_def)
  have c3: "mSwapHeaderSize s \<le> mSwapSize s + 2 ^ 32 - sz"
    "\<not> mSwapSize s + 2 ^ 32 - sz < mSwapUsed s"
    using b f big by (simp_all add: sz_def)
  have c4: "u32 (mSwapUsed s + sz) = mSwapUsed s + sz"
    using b f big by (intro u32_id) (simp add: sz_def)
  have i: "(mSwapIndex s = 0) \<noteq> (1 - mSwapIndex s = 0)"
    using f(4) by auto
  have d: "sz - sizeof_RecordHeader = padded (length V)"
    by (simp add: sz_def sizeof_RecordHeader_def)
  show ?thesis
    unfolding Add_first_def Let_def sz c2 d
    using c1 c3 i by (simp add: c4 area_area_update new_record_def) (simp add: sz_def)
qed

lemma padded_60: "padded 60 = 60"
  by (simp add: padded_def)

lemma area1_wiped: "area1 (Wipe blank) = replicate 64 0"
  by (simp add: Wipe_def blank_def area_update_def Let_def)

lemma oversized_flash:
  "\<exists>s'. Set (Wipe blank) u K (replicate 60 b) = Some (OT_ERROR_NONE, s') \<and>
        mSwapUsed s' = 72 \<and> mSwapIndex s' = 0 \<and> mSwapSize s' = 64 \<and>
        length (area1 s') = 64 \<and>
        mSwapHeaderSize s' = 4 \<and>
        area1 s' = area1 (Wipe blank) \<and>
        area0 s' = le32 kActive @
                   enc (fst (new_record u K True (replicate 60 b)),
                        take 52 (snd (new_record u K True (replicate 60 b)))) @ []"
proof -
  let ?V = "replicate 60 b"
  let ?x = "new_record u K True ?V"
  let ?rcd = "(RecordHeader_Init K True)\<lparr>mLength := of_nat (length ?V)\<rparr>"
  have "\<exists>s'. Add_first (Wipe blank) u K True ?V = Some (OT_ERROR_NONE, s') \<and>
           mSwapUsed s' = mSwapUsed (Wipe blank) + (8 + padded (length ?V)) \<and>
           mSwapIndex s' = mSwapIndex (Wipe blank) \<and> mSwapSize s' = mSwapSize (Wipe blank) \<and>
           mSwapHeaderSize s' = mSwapHeaderSize (Wipe blank) \<and>
           area s' (1 - mSwapIndex (Wipe blank)) = area (Wipe blank) (1 - mSwapIndex (Wipe blank)) \<and>
           area s' (mSwapIndex (Wipe blank)) =
             otPlatFlashWrite
               (otPlatFlashWrite (area (Wipe blank) (mSwapIndex (Wipe blank))) (mSwapUsed (Wipe blank))
                  (encode_header ?rcd @ snd ?x))
               (mSwapUsed (Wipe blank)) (encode_header (fst ?x))"
    by (rule Add_first_oversized[OF wiped_blank(1)]) (simp_all add: wiped_blank padded_60)
  then obtain s' where s': "Set (Wipe blank) u K ?V = Some (OT_ERROR_NONE, s')"
    "mSwapUsed s' = 72" "mSwapIndex s' = 0" "mSwapSize s' = 64" "area1 s' = area1 (Wipe blank)"
    "mSwapHeaderSize s' = 4"
    "area0 s' = otPlatFlashWrite
               (otPlatFlashWrite (area0 (Wipe blank)) 4 (encode_header ?rcd @ snd ?x))
               4 (encode_header (fst ?x))"
    by (auto simp: Set_def wiped_blank wiped_flash padded_60 area_def)
  have ld: "length (snd ?x) = 60" by (simp add: new_record_header padded_60)
  have r0: "area0 (Wipe blank) = le32 kActive @ replicate 60 0xff @ []"
    using wiped_flash(1) by (simp add: replicate_add[symmetric])
  have t: "take (length (area0 (Wipe blank)) - 4) (encode_header ?rcd @ snd ?x)
           = encode_header ?rcd @ take 52 (snd ?x)"
    by (simp add: wiped_flash(2))
  have w1: "otPlatFlashWrite (area0 (Wipe blank)) 4 (encode_header ?rcd @ snd ?x)
            = le32 kActive @ encode_header ?rcd @ take 52 (snd ?x)"
    apply (subst write_overflow)
    apply (subst t)
    apply (subst r0)
    using write_append[of "encode_header ?rcd @ take 52 (snd ?x)" "replicate 60 0xff" "le32 kActive" "[]"]
    apply (simp add: length_le32 ld and_erased)
    done
  have w2: "otPlatFlashWrite (le32 kActive @ encode_header ?rcd @ take 52 (snd ?x)) 4
              (encode_header (fst ?x))
            = le32 kActive @ encode_header (fst ?x) @ take 52 (snd ?x)"
  proof -
    have "otPlatFlashWrite (le32 kActive @ encode_header ?rcd @ take 52 (snd ?x))
            (length (le32 kActive)) (encode_header (SetAddCompleteFlag ?rcd))
          = le32 kActive @ encode_header (SetAddCompleteFlag ?rcd) @ take 52 (snd ?x)"
      unfolding SetAddCompleteFlag_def by (rule write_header)
    moreover have "fst ?x = SetAddCompleteFlag ?rcd" by (simp add: new_record_def)
    ultimately show ?thesis by (simp only: length_le32)
  qed
  show ?thesis
    apply (rule exI[of _ s'])
    using s' w1 w2 by (simp add: area1_wiped enc_def)
qed

lemma oversized_Set:
  "\<exists>s'. Set (Wipe blank) u K (replicate 60 b) = Some (OT_ERROR_NONE, s') \<and>
        mSwapUsed s' = 72 \<and> mSwapIndex s' = 0 \<and> mSwapSize s' = 64 \<and>
        area1 s' = area1 (Wipe blank)"
  using oversized_flash[of u K b] by blast

lemma oversized_Add:
  "\<exists>s'. Add (Wipe blank) u K (replicate 60 b) = Some (OT_ERROR_NONE, s') \<and>
        mSwapUsed s' = 72 \<and> mSwapIndex s' = 0 \<and> mSwapSize s' = 64 \<and>
        area1 s' = area1 (Wipe blank)"
proof -
  from Get_probe[OF log_ok_of_store_ok[OF wiped_blank(1)], of K] obtain r where
    "Get (Wipe blank) K 0 None None = Some (OT_ERROR_NOT_FOUND, r)"
    by (auto simp: wiped_blank)
  then have "Add (Wipe blank) u K (replicate 60 b) = Set (Wipe blank) u K (replicate 60 b)"
    by (cases r) (simp add: Add_def Set_def)
  with oversized_Set[of u K b] show ?thesis by simp
qed

lemma wiped_Swap: "\<exists>t. Swap (Wipe blank) = Some t \<and> mSwapIndex t = 1 \<and> mSwapUsed t = 4"
proof -
  from Swap_ok[OF log_ok_of_store_ok[OF wiped_blank(1)]] obtain t where
    t: "Swap (Wipe blank) = Some t" "store_ok t" "records t = compact (records (Wipe blank))"
    "mSwapIndex t = 1 - mSwapIndex (Wipe blank)" by blast
  from used_layout[OF t(2)] t(3) have "mSwapUsed t = 4" by (simp add: wiped_blank)
  with t show ?thesis by (simp add: wiped_blank)
qed

text \<open>\<open>Init\<close> on the flash an oversized record has been written to.\<close>

lemma Init_past_the_area:
  assumes a0: "area0 s = le32 kActive @ enc (fst (new_record u K f (replicate 60 b)), d) @ []"
    and l: "length (area0 s) = 64" "length (area1 s) = 64"
  shows "Init s = Some (s\<lparr>mSwapSize := 64, mSwapUsed := 72, mSwapIndex := 0, mSwapHeaderSize := 4\<rparr>)"
proof -
  let ?h = "fst (new_record u K f (replicate 60 b))"
  define t0 where "t0 = s\<lparr>mSwapSize := otPlatFlashGetSwapSize s, mSwapIndex := 0\<rparr>"
  have t0: "t0 = s\<lparr>mSwapSize := 64, mSwapIndex := 0\<rparr>"
    using l(1) by (simp add: t0_def otPlatFlashGetSwapSize_def u32_def)
  have "otPlatFlashRead ([] @ le32 kActive @ enc (?h, d) @ []) (length ([] :: byte list)) 4
        = take 4 (le32 kActive)"
    by (rule read_append) simp
  then have act: "SwapHeader_IsActive (otPlatFlashRead (area0 s) 0 4)"
    by (simp add: a0 SwapHeader_IsActive_def le32_kActive of_le32_kActive)
  have sl: "Init_select t0 = (t0\<lparr>mSwapHeaderSize := 4\<rparr>, False)"
    using act by (subst Init_select_eq) (simp_all add: t0 area_def SwapHeader_GetSize_def)
  define t1 where "t1 = s\<lparr>mSwapSize := 64, mSwapUsed := 4, mSwapIndex := 0, mSwapHeaderSize := 4\<rparr>"
  define t2 where "t2 = s\<lparr>mSwapSize := 64, mSwapUsed := 72, mSwapIndex := 0, mSwapHeaderSize := 4\<rparr>"
  have e1: "(t0\<lparr>mSwapHeaderSize := 4\<rparr>)\<lparr>mSwapUsed := mSwapHeaderSize (t0\<lparr>mSwapHeaderSize := 4\<rparr>)\<rparr> = t1"
    by (simp add: t0 t1_def)
  have lim: "u32 (64 + 2 ^ 32 - sizeof_RecordHeader) = 56"
    by (simp add: u32_def sizeof_RecordHeader_def)
  have f1: "mSwapUsed t1 = 4" "mSwapSize t1 = 64" by (simp_all add: t1_def)
  have h: "ReadHeader t1 (mSwapIndex t1) (mSwapUsed t1) = ?h"
    using ReadHeader_at[of t1 0 "le32 kActive" "(?h, d)" "[]"]
    by (simp add: t1_def area_def a0)
  have sz: "unat (GetSize ?h) = 68"
    using Add_first_size[of "replicate 60 b" K f]
    by (simp add: padded_60 new_record_header GetSize_cong[of ?h "(RecordHeader_Init K f)\<lparr>mLength := of_nat (length (replicate 60 b))\<rparr>"])
  have s2: "Init_scan t2 = Some t2"
    by (subst Init_scan.simps) (simp add: t2_def u32_def sizeof_RecordHeader_def)
  have le: "mSwapUsed t1 \<le> u32 (mSwapSize t1 + 2 ^ 32 - sizeof_RecordHeader)"
    by (simp add: f1 u32_def sizeof_RecordHeader_def)
  have nx: "t1\<lparr>mSwapUsed := u32 (mSwapUsed t1 + unat (GetSize ?h))\<rparr> = t2"
    by (simp add: sz t1_def t2_def u32_def)
  have c: "IsAddBeginSet ?h" "IsAddCompleteSet ?h"
    by (simp_all add: new_record_header)
  have s1: "Init_scan t1 = Some t2"
    apply (subst Init_scan.simps)
    apply (simp only: le if_True Let_def h c not_True_eq_False if_False nx s2)
    done
  have lp: "SanitizeFreeSpace_loop t2 72 = Some False"
    by (subst SanitizeFreeSpace_loop.simps) (simp add: t2_def)
  have sn: "SanitizeFreeSpace t2 = Some t2"
    by (simp add: SanitizeFreeSpace_def t2_def[symmetric] lp) (simp add: t2_def lp[unfolded t2_def])
  have "Init s = Some t2"
    unfolding Init_def t0_def[symmetric] sl
    by (simp only: prod.case if_False e1 s1 option.case sn)
  then show ?thesis by (simp only: t2_def)
qed

section \<open>Properties of the specification\<close>

text \<open>
  C3 (as stated): a record is valid iff its Delete flag bit is cleared and its AddComplete
  flag bit is cleared.  The header that \<open>Add\<close> commits for a record that is not the
  first of its key has flags \<open>0xfffc\<close>: it is valid, and its Delete bit is not cleared.
\<close>

theorem IsValid_counterexample:
  "\<not> (IsValid \<lparr>mKey = 1, mFlags = 0xfffc, mLength = 2, mReserved = 0xffff\<rparr> \<longleftrightarrow>
       IsDeleted \<lparr>mKey = 1, mFlags = 0xfffc, mLength = 2, mReserved = 0xffff\<rparr> \<and>
       IsAddCompleteSet \<lparr>mKey = 1, mFlags = 0xfffc, mLength = 2, mReserved = 0xffff\<rparr>)"
  by (simp add: IsValid_def IsDeleted_def IsAddCompleteSet_def kFlagAddComplete_def kFlagDelete_def)

text \<open>
  C3 (amended): a record is valid iff its AddComplete flag bit (bit 1) is cleared and its
  Delete flag bit (bit 2) is still set, that is, the record has been completely added and
  has not been deleted.  \<open>IsValid\<close> is the test that the scans of \<open>Get\<close>, \<open>Delete\<close>,
  \<open>DoesValidRecordExist\<close> and \<open>Swap\<close> apply to each header.
\<close>

theorem IsValid_iff:
  "(IsValid h \<longleftrightarrow> \<not> bit (mFlags h) 1 \<and> bit (mFlags h) 2) \<and>
   (IsValid h \<longleftrightarrow> IsAddCompleteSet h \<and> \<not> IsDeleted h)"
  by (simp add: IsValid_bits flags_tests)

text \<open>
  C1: round-trip.  On a consistent store with room for the record, \<open>Set(K, V)\<close> with
  \<open>|V| \<le> 256\<close> returns OK, and the following \<open>Get(K, 0)\<close> returns OK, reports the
  length \<open>|V|\<close> and has copied the bytes of \<open>V\<close> into the buffer (as many as the
  caller's \<open>*aValueLength\<close> allows).
\<close>

theorem Set_Get_roundtrip:
  assumes "store_ok s" and "length V \<le> kMaxDataSize"
    and "mSwapUsed s + 8 + padded (length V) \<le> mSwapSize s"
  shows "\<exists>s' b. Set s u K V = Some (OT_ERROR_NONE, s') \<and>
           Get s' K 0 (Some buf) (Some l) = Some (OT_ERROR_NONE, Some b, Some (of_nat (length V))) \<and>
           take (min (unat l) (length V)) b = take (unat l) V"
proof -
  from assms(2) have len: "length V \<le> 256" by (simp add: kMaxDataSize_def)
  from Set_fits[OF assms(1) len assms(3), of u K] obtain s' where
    s': "Set s u K V = Some (OT_ERROR_NONE, s')" "store_ok s'"
    "records s' = records s @ [new_record u K True V]" by blast
  have h: "hits K 0 (records s') 0 = hits K 0 (records s) 0 @ [new_record u K True V]"
    by (simp add: s'(3) hits_append)
  from Get_new_record[OF log_ok_of_store_ok[OF s'(2)] h len, of buf l] s'(1)
  show ?thesis by blast
qed

theorem Set_Get_roundtrip_witness:
  "store_ok (Wipe blank) \<and> length [0xAA, 0xBB :: byte] \<le> kMaxDataSize \<and>
   mSwapUsed (Wipe blank) + 8 + padded (length [0xAA, 0xBB :: byte]) \<le> mSwapSize (Wipe blank) \<and>
   (\<exists>s' b. Set (Wipe blank) (\<lambda>_. 0) 1 [0xAA, 0xBB] = Some (OT_ERROR_NONE, s') \<and>
      Get s' 1 0 (Some [0, 0]) (Some 2) = Some (OT_ERROR_NONE, Some b, Some 2) \<and>
      take 2 b = [0xAA, 0xBB])"
proof -
  have h: "store_ok (Wipe blank)" "length [0xAA, 0xBB :: byte] \<le> kMaxDataSize"
    "mSwapUsed (Wipe blank) + 8 + padded (length [0xAA, 0xBB :: byte]) \<le> mSwapSize (Wipe blank)"
    by (simp_all add: wiped_blank kMaxDataSize_def)
  have e: "min (unat (2 :: 16 word)) (length [0xAA, 0xBB :: byte]) = 2"
    "take (unat (2 :: 16 word)) [0xAA, 0xBB :: byte] = [0xAA, 0xBB]"
    "(of_nat (length [0xAA, 0xBB :: byte]) :: 16 word) = 2"
    by simp_all
  note Set_Get_roundtrip[OF h, of "\<lambda>_. 0" 1 "[0, 0]" 2, unfolded e]
  with h show ?thesis by blast
qed

text \<open>
  C10: a negative index is never found.  For every key and every negative index, on a
  consistent store \<open>Get\<close> returns NOT_FOUND, leaves the buffer alone and, when the length
  pointer is not null, stores 0 through it; on any state whatsoever this is the only
  result \<open>Get\<close> can return.  (\<open>Delete\<close> alone gives \<open>-1\<close> a meaning.)
\<close>

theorem Get_negative_index:
  assumes "i < 0"
  shows "(log_ok s \<longrightarrow>
            Get s K i aValue aValueLength =
            Some (OT_ERROR_NOT_FOUND, aValue, map_option (\<lambda>_. 0) aValueLength)) \<and>
         (\<forall>r. Get s K i aValue aValueLength = Some r \<longrightarrow>
            r = (OT_ERROR_NOT_FOUND, aValue, map_option (\<lambda>_. 0) aValueLength))"
proof (intro conjI impI allI)
  assume "log_ok s"
  then show "Get s K i aValue aValueLength =
            Some (OT_ERROR_NOT_FOUND, aValue, map_option (\<lambda>_. 0) aValueLength)"
    by (rule Get_no_hit) (simp add: hits_negative assms)
next
  fix r
  assume "Get s K i aValue aValueLength = Some r"
  then obtain a where a: "Get_loop s K i aValueLength (mSwapHeaderSize s) 0 (OT_ERROR_NOT_FOUND, 0, aValue) = Some a"
    and r: "r = (case a of (error, valueLength, aValue') \<Rightarrow>
                   (error, aValue', map_option (\<lambda>_. valueLength) aValueLength))"
    by (auto simp: Get_def split: option.splits)
  from Get_loop_negative[OF a] assms have "a = (OT_ERROR_NOT_FOUND, 0, aValue)" by simp
  with r show "r = (OT_ERROR_NOT_FOUND, aValue, map_option (\<lambda>_. 0) aValueLength)" by simp
qed

theorem Get_negative_index_witness:
  "(- 1 :: int) < 0 \<and>
   (case run_calls (\<lambda>_. 0) (Wipe blank) [Call_Set 1 [0xAA, 0xBB]] of
      None \<Rightarrow> False
    | Some s \<Rightarrow>
        log_ok s \<and>
        Get s 1 (- 1) (Some [0, 0]) (Some 2) = Some (OT_ERROR_NOT_FOUND, Some [0, 0], Some 0))"
proof -
  from one_Set[of "\<lambda>_. 0" 1 "0xAA" "0xBB"] obtain s where
    s: "run_calls (\<lambda>_. 0) (Wipe blank) [Call_Set 1 [0xAA, 0xBB]] = Some s" "store_ok s"
    by blast
  have h: "(- 1 :: int) < 0" by simp
  have l: "log_ok s" using s(2) by (rule log_ok_of_store_ok)
  note g = Get_negative_index[OF h, of s 1 "Some [0, 0]" "Some 2", THEN conjunct1, rule_format, OF l]
  show ?thesis
    apply (subst s(1))
    apply (simp only: option.case)
    apply (intro conjI h l)
    using g apply simp
    done
qed

text \<open>
  C2: \<open>Set\<close> shadows the previous chain.  On the blank device, after \<open>Wipe\<close> and
  \<open>Add(7,[1]); Add(7,[2,2]); Set(7,[9])\<close>, the driver answers \<open>Get(7,0)\<close> with the new
  value, but it answers \<open>Get(7,1)\<close> with the second value of the replaced chain instead
  of NOT_FOUND: the scan counts the old chain before it reaches the record that \<open>Set\<close>
  marked first, and keeps the hit.
\<close>

theorem Set_keeps_old_index_1:
  "case run_calls (\<lambda>_. 0) (Wipe blank) [Call_Add 7 [1], Call_Add 7 [2, 2], Call_Set 7 [9]] of
     None \<Rightarrow> False
   | Some s \<Rightarrow>
       Get s 7 0 (Some [0, 0]) (Some 2) = Some (OT_ERROR_NONE, Some [9, 0], Some 1) \<and>
       Get s 7 1 (Some [0, 0]) (Some 2) = Some (OT_ERROR_NONE, Some [2, 2], Some 2)"
proof -
  from three_calls[of "\<lambda>_. 0"] obtain s where
    s: "run_calls (\<lambda>_. 0) (Wipe blank) [Call_Add 7 [1], Call_Add 7 [2, 2], Call_Set 7 [9]] = Some s"
    "store_ok s"
    "records s = [new_record (\<lambda>_. 0) 7 True [1], new_record (\<lambda>_. 0) 7 False [2, 2],
                  new_record (\<lambda>_. 0) 7 True [9]]"
    by blast
  note l = log_ok_of_store_ok[OF s(2)]
  have "Get s 7 0 (Some [0, 0]) (Some 2) = Some (OT_ERROR_NONE, Some [9, 0], Some 1)"
    "Get s 7 1 (Some [0, 0]) (Some 2) = Some (OT_ERROR_NONE, Some [2, 2], Some 2)"
    by (simp_all add: Get_ok[OF l] s(3) hit_new)
  then show ?thesis
    by (simp only: s(1) option.case) 
qed

text \<open>
  C4: append ordering.  On a consistent store with no valid record of key \<open>K\<close> and room
  for all the records, after \<open>Add(K,V0); \<dots>; Add(K,Vn)\<close> (each value of at most 256
  bytes) \<open>Get(K,i)\<close> returns \<open>Vi\<close> for every \<open>i\<close> up to \<open>n\<close>, and \<open>Get(K,n+1)\<close> returns
  NOT_FOUND.
\<close>

theorem Add_append_ordering:
  assumes "store_ok s" and "\<forall>x \<in> set (records s). \<not> live K x"
    and "\<forall>V \<in> set Vs. length V \<le> kMaxDataSize"
    and "mSwapUsed s + (\<Sum>V\<leftarrow>Vs. 8 + padded (length V)) \<le> mSwapSize s"
  shows "\<exists>s'. run_calls u s (map (Call_Add K) Vs) = Some s' \<and>
           (\<forall>i < length Vs.
              \<exists>b. Get s' K (int i) (Some buf) (Some l) =
                     Some (OT_ERROR_NONE, Some b, Some (of_nat (length (Vs ! i)))) \<and>
                   take (min (unat l) (length (Vs ! i))) b = take (unat l) (Vs ! i)) \<and>
           Get s' K (int (length Vs)) (Some buf) (Some l) =
             Some (OT_ERROR_NOT_FOUND, Some buf, Some 0)"
proof -
  from assms(3) have len: "\<forall>V \<in> set Vs. length V \<le> 256" by (simp add: kMaxDataSize_def)
  have fl: "(\<forall>x \<in> set (records s). \<not> live K x) = True" using assms(2) by simp
  from Adds_fit[OF assms(1) len assms(4), of u K, unfolded fl] obtain s' where
    s': "run_calls u s (map (Call_Add K) Vs) = Some s'" "store_ok s'"
    "records s' = records s @
             (case Vs of [] \<Rightarrow> []
              | V # Ws \<Rightarrow> new_record u K True V # map (new_record u K False) Ws)"
    by blast
  note l = log_ok_of_store_ok[OF s'(2)]
  have h: "hits K (int i) (records s') 0 =
           (if i < length Vs then [new_record u K (i = 0) (Vs ! i)] else [])" for i
    unfolding s'(3) by (rule hits_new_chain[OF assms(2)])
  have "\<exists>b. Get s' K (int i) (Some buf) (Some l) =
                     Some (OT_ERROR_NONE, Some b, Some (of_nat (length (Vs ! i)))) \<and>
                   take (min (unat l) (length (Vs ! i))) b = take (unat l) (Vs ! i)"
    if "i < length Vs" for i
  proof -
    from that have "hits K (int i) (records s') 0 = [] @ [new_record u K (i = 0) (Vs ! i)]"
      by (simp add: h)
    moreover from that len have "length (Vs ! i) \<le> 256" by simp
    ultimately show ?thesis by (rule Get_new_record[OF l])
  qed
  moreover have "Get s' K (int (length Vs)) (Some buf) (Some l) =
             Some (OT_ERROR_NOT_FOUND, Some buf, Some 0)"
    using Get_no_hit[OF l, of K "int (length Vs)" "Some buf" "Some l"] by (simp add: h)
  ultimately show ?thesis using s'(1) by blast
qed

theorem Add_append_ordering_witness:
  "store_ok (Wipe blank) \<and> list_all (\<lambda>x. \<not> live 7 x) (records (Wipe blank)) \<and>
   list_all (\<lambda>V. length V \<le> kMaxDataSize) [[1], [2, 2], [3, 3, 3 :: byte]] \<and>
   mSwapUsed (Wipe blank) + (\<Sum>V\<leftarrow>[[1], [2, 2], [3, 3, 3 :: byte]]. 8 + padded (length V))
     \<le> mSwapSize (Wipe blank) \<and>
   (\<exists>s'. run_calls (\<lambda>_. 0) (Wipe blank) (map (Call_Add 7) [[1], [2, 2], [3, 3, 3]]) = Some s' \<and>
      (\<forall>i < length [[1], [2, 2], [3, 3, 3 :: byte]].
         \<exists>b. Get s' 7 (int i) (Some [0, 0, 0]) (Some 3) =
                Some (OT_ERROR_NONE, Some b, Some (of_nat (length ([[1], [2, 2], [3, 3, 3 :: byte]] ! i)))) \<and>
              take (min (unat (3 :: 16 word)) (length ([[1], [2, 2], [3, 3, 3 :: byte]] ! i))) b =
              take (unat (3 :: 16 word)) ([[1], [2, 2], [3, 3, 3]] ! i)) \<and>
      Get s' 7 (int (length [[1], [2, 2], [3, 3, 3 :: byte]])) (Some [0, 0, 0]) (Some 3) =
        Some (OT_ERROR_NOT_FOUND, Some [0, 0, 0], Some 0))"
proof -
  have h: "store_ok (Wipe blank)" "\<forall>x \<in> set (records (Wipe blank)). \<not> live 7 x"
    "\<forall>V \<in> set [[1], [2, 2], [3, 3, 3 :: byte]]. length V \<le> kMaxDataSize"
    "mSwapUsed (Wipe blank) + (\<Sum>V\<leftarrow>[[1], [2, 2], [3, 3, 3 :: byte]]. 8 + padded (length V))
       \<le> mSwapSize (Wipe blank)"
    by (simp_all add: wiped_blank kMaxDataSize_def padded_def)
  have h': "list_all (\<lambda>x. \<not> live 7 x) (records (Wipe blank))"
    "list_all (\<lambda>V. length V \<le> kMaxDataSize) [[1], [2, 2], [3, 3, 3 :: byte]]"
    using h(2,3) by (simp_all only: list_all_iff)
  from Add_append_ordering[OF h, of "\<lambda>_. 0" "[0, 0, 0]" 3] h(1,4) h' show ?thesis
    by blast
qed

text \<open>
  C5: compaction preserves visible values.  In the state of C2, \<open>Get(7,1)\<close> returns OK
  with the bytes \<open>[2,2]\<close> before \<open>Swap\<close> and NOT_FOUND after it: \<open>Swap\<close> drops the records
  shadowed by the later record marked first, which the scan of \<open>Get\<close> still counts.
\<close>

theorem Swap_loses_old_index_1:
  "case run_calls (\<lambda>_. 0) (Wipe blank) [Call_Add 7 [1], Call_Add 7 [2, 2], Call_Set 7 [9]] of
     None \<Rightarrow> False
   | Some s \<Rightarrow>
       Get s 7 1 (Some [0, 0]) (Some 2) = Some (OT_ERROR_NONE, Some [2, 2], Some 2) \<and>
       (case Swap s of
          None \<Rightarrow> False
        | Some s' \<Rightarrow>
            Get s' 7 0 (Some [0, 0]) (Some 2) = Some (OT_ERROR_NONE, Some [9, 0], Some 1) \<and>
            Get s' 7 1 (Some [0, 0]) (Some 2) = Some (OT_ERROR_NOT_FOUND, Some [0, 0], Some 0))"
proof -
  from three_calls[of "\<lambda>_. 0"] obtain s where
    s: "run_calls (\<lambda>_. 0) (Wipe blank) [Call_Add 7 [1], Call_Add 7 [2, 2], Call_Set 7 [9]] = Some s"
    "store_ok s"
    "records s = [new_record (\<lambda>_. 0) 7 True [1], new_record (\<lambda>_. 0) 7 False [2, 2],
                  new_record (\<lambda>_. 0) 7 True [9]]"
    by blast
  note l = log_ok_of_store_ok[OF s(2)]
  from Swap_ok[OF l] obtain s' where
    s': "Swap s = Some s'" "store_ok s'" "records s' = compact (records s)" by blast
  have c: "records s' = [new_record (\<lambda>_. 0) 7 True [9]]"
    by (simp add: s'(3) s(3) shadowed_def)
  note l' = log_ok_of_store_ok[OF s'(2)]
  have g: "Get s 7 1 (Some [0, 0]) (Some 2) = Some (OT_ERROR_NONE, Some [2, 2], Some 2)"
    by (simp add: Get_ok[OF l] s(3) hit_new)
  have g': "Get s' 7 0 (Some [0, 0]) (Some 2) = Some (OT_ERROR_NONE, Some [9, 0], Some 1)"
    "Get s' 7 1 (Some [0, 0]) (Some 2) = Some (OT_ERROR_NOT_FOUND, Some [0, 0], Some 0)"
    by (simp_all add: Get_ok[OF l'] c hit_new)
  show ?thesis
    using g g' by (simp only: s(1) s'(1) option.case) 
qed

text \<open>
  C6: \<open>Delete(K, i)\<close> on a consistent store returns OK or NOT_FOUND and keeps every
  record's key, length and data.  It tombstones exactly the valid records of the key
  whose counter equals \<open>i\<close> (the counter restarts at 0 at each valid record of the key
  that is marked first), or all the valid records of the key when \<open>i = -1\<close>.  It returns
  OK iff it tombstoned a record, and after \<open>Delete(K, -1)\<close>, \<open>Get(K, 0)\<close> returns
  NOT_FOUND.
\<close>

theorem Delete_tombstones:
  assumes "store_ok s"
  shows "\<exists>e s'. Delete s K i = Some (e, s') \<and>
           (e = OT_ERROR_NONE \<or> e = OT_ERROR_NOT_FOUND) \<and>
           length (records s') = length (records s) \<and>
           (\<forall>j < length (records s).
              mKey (fst (records s' ! j)) = mKey (fst (records s ! j)) \<and>
              mLength (fst (records s' ! j)) = mLength (fst (records s ! j)) \<and>
              snd (records s' ! j) = snd (records s ! j) \<and>
              (IsDeleted (fst (records s' ! j)) \<longleftrightarrow>
                 IsDeleted (fst (records s ! j)) \<or> tombstoned K i (records s) j)) \<and>
           (e = OT_ERROR_NONE \<longleftrightarrow> (\<exists>j < length (records s). tombstoned K i (records s) j)) \<and>
           (i = - 1 \<longrightarrow>
              Get s' K 0 aValue aValueLength =
                Some (OT_ERROR_NOT_FOUND, aValue, map_option (\<lambda>_. 0) aValueLength))"
proof -
  let ?xs = "records s"
  from Delete_ok[OF assms, of K i] obtain s' where
    s': "Delete s K i = Some (if True \<in> set (tombstones K i ?xs 0) then OT_ERROR_NONE
                              else OT_ERROR_NOT_FOUND, s')"
    "store_ok s'" "records s' = scan_delete K i ?xs 0" by blast
  have t: "tombstones K i ?xs 0 ! j = tombstoned K i ?xs j" if "j < length ?xs" for j
    using tombstones_nth[OF that, of K i 0] by (auto simp: tombstoned_def)
  have ex: "(True \<in> set (tombstones K i ?xs 0)) = (\<exists>j < length ?xs. tombstoned K i ?xs j)"
    using t by (auto simp: in_set_conv_nth)
  have g: "Get s' K 0 aValue aValueLength =
                Some (OT_ERROR_NOT_FOUND, aValue, map_option (\<lambda>_. 0) aValueLength)" if "i = - 1"
    by (rule Get_no_hit[OF log_ok_of_store_ok[OF s'(2)]])
       (simp add: s'(3) that no_live_hits[OF delete_all_no_live])
  show ?thesis
    using s'(1) g scan_delete_nth[of _ ?xs K i 0] t
    by (auto simp: s'(3) ex)
qed

theorem Delete_tombstones_witness:
  "case run_calls (\<lambda>_. 0) (Wipe blank) [Call_Set 1 [0xAA, 0xBB]] of
     None \<Rightarrow> False
   | Some s \<Rightarrow>
       store_ok s \<and>
       (\<exists>s'. Delete s 1 (- 1) = Some (OT_ERROR_NONE, s') \<and>
          Get s' 1 0 None None = Some (OT_ERROR_NOT_FOUND, None, None))"
proof -
  from one_Set[of "\<lambda>_. 0" 1 "0xAA" "0xBB"] obtain s where
    s: "run_calls (\<lambda>_. 0) (Wipe blank) [Call_Set 1 [0xAA, 0xBB]] = Some s" "store_ok s"
    "records s = [new_record (\<lambda>_. 0) 1 True [0xAA, 0xBB]]"
    by blast
  have t: "tombstoned 1 (- 1) (records s) 0"
    by (simp add: tombstoned_def s(3))
  from Delete_tombstones[OF s(2), of 1 "- 1" None None] t
  have "\<exists>s'. Delete s 1 (- 1) = Some (OT_ERROR_NONE, s') \<and>
          Get s' 1 0 None None = Some (OT_ERROR_NOT_FOUND, None, None)"
    by (auto simp: s(3))
  with s(2) show ?thesis
    by (simp only: s(1) option.case) 
qed

text \<open>
  C7: the space handling of \<open>Add\<close>.  On the blank device with two areas of 64 bytes,
  after \<open>Wipe\<close> the frontier is at 4.  A value of 60 bytes makes a record of
  \<open>8 + 60 = 68\<close> bytes, so \<open>swapUsed + RecordSize = 72 > 64 = swapSize\<close>, and it still
  does not fit after a \<open>Swap\<close>, which leaves the frontier at 4 in area 1: the call should
  swap and return NO_BUFS.  But \<open>mSwapSize - record.GetSize()\<close> is unsigned and wraps
  around to \<open>2^32 - 4\<close>, so the assertion and the test for space both pass: \<open>Set\<close> and
  \<open>Add\<close> run no \<open>Swap\<close> (the active area is still area 0 and area 1 is untouched),
  return OK and advance \<open>swapUsed\<close> to 72, past the end of the area.
\<close>

theorem Add_accepts_record_larger_than_area:
  "mSwapUsed (Wipe blank) = 4 \<and> mSwapSize (Wipe blank) = 64 \<and> mSwapIndex (Wipe blank) = 0 \<and>
   length (replicate 60 (0xAA :: byte)) \<le> kMaxDataSize \<and>
   unat (GetSize ((RecordHeader_Init 1 True)
           \<lparr>mLength := of_nat (length (replicate 60 (0xAA :: byte)))\<rparr>)) = 68 \<and>
   (\<exists>t. Swap (Wipe blank) = Some t \<and> mSwapIndex t = 1 \<and> mSwapUsed t = 4) \<and>
   (\<exists>s'. Set (Wipe blank) (\<lambda>_. 0) 1 (replicate 60 0xAA) = Some (OT_ERROR_NONE, s') \<and>
         mSwapIndex s' = 0 \<and> area1 s' = replicate 64 0 \<and>
         mSwapUsed s' = 72 \<and> mSwapSize s' = 64) \<and>
   (\<exists>s'. Add (Wipe blank) (\<lambda>_. 0) 1 (replicate 60 0xAA) = Some (OT_ERROR_NONE, s') \<and>
         mSwapIndex s' = 0 \<and> area1 s' = replicate 64 0 \<and>
         mSwapUsed s' = 72 \<and> mSwapSize s' = 64)"
proof -
  have sz: "unat (GetSize ((RecordHeader_Init 1 True)
           \<lparr>mLength := of_nat (length (replicate 60 (0xAA :: byte)))\<rparr>)) = 68"
    using Add_first_size[of "replicate 60 (0xAA :: byte)" 1 True] by (simp add: padded_60)
  have len: "length (replicate 60 (0xAA :: byte)) \<le> kMaxDataSize"
    by (simp add: kMaxDataSize_def)
  from oversized_Set[of "\<lambda>_. 0" 1 "0xAA"]
  have s: "\<exists>s'. Set (Wipe blank) (\<lambda>_. 0) 1 (replicate 60 0xAA) = Some (OT_ERROR_NONE, s') \<and>
         mSwapIndex s' = 0 \<and> area1 s' = replicate 64 0 \<and>
         mSwapUsed s' = 72 \<and> mSwapSize s' = 64"
    by (auto simp: area1_wiped)
  from oversized_Add[of "\<lambda>_. 0" 1 "0xAA"]
  have a: "\<exists>s'. Add (Wipe blank) (\<lambda>_. 0) 1 (replicate 60 0xAA) = Some (OT_ERROR_NONE, s') \<and>
         mSwapIndex s' = 0 \<and> area1 s' = replicate 64 0 \<and>
         mSwapUsed s' = 72 \<and> mSwapSize s' = 64"
    by (auto simp: area1_wiped)
  from wiped_blank(3,4,5) len sz wiped_Swap s a show ?thesis
    by (intro conjI)
qed

text \<open>
  C8: \<open>Init\<close> on a device with two areas of the same size, of at least one record
  header.  When neither area starts with the active marker, \<open>Init\<close> wipes and returns.
  Otherwise it selects area 0 when that one starts with the marker, else area 1.  In the
  selected area, let \<open>u\<close> be an offset reached from the swap header through records
  that have \<open>AddBegin\<close> and \<open>AddComplete\<close> cleared, each advancing by its size, such that
  \<open>u\<close> is past \<open>swapSize - sizeof(RecordHeader)\<close> or the header at \<open>u\<close> has one of the
  two bits still at 1.  Then the scan leaves \<open>swapUsed = u\<close> and \<open>Init\<close> ends with
  \<open>SanitizeFreeSpace\<close> on that state, which leaves it as it is when the area is erased
  from \<open>u\<close> on.
\<close>

theorem Init_selects_and_scans:
  assumes "length (area0 s) = n" and "length (area1 s) = n" and "8 \<le> n" and "n + 4 \<le> 2 ^ 32"
  shows "(\<not> SwapHeader_IsActive (otPlatFlashRead (area0 s) 0 4) \<and>
          \<not> SwapHeader_IsActive (otPlatFlashRead (area1 s) 0 4) \<longrightarrow>
            Init s = Some (Wipe (s\<lparr>mSwapSize := n, mSwapIndex := 0\<rparr>))) \<and>
         (\<forall>i u. i = (if SwapHeader_IsActive (otPlatFlashRead (area0 s) 0 4) then 0 else 1) \<and>
            SwapHeader_IsActive (otPlatFlashRead (area s i) 0 4) \<and>
            parse (area s i) 4 u \<noteq> None \<and> u \<le> n \<and>
            (n < u + sizeof_RecordHeader \<or>
             \<not> (IsAddBeginSet (ReadHeader s i u) \<and> IsAddCompleteSet (ReadHeader s i u))) \<longrightarrow>
            Init s = SanitizeFreeSpace
              (s\<lparr>mSwapSize := n, mSwapUsed := u, mSwapIndex := i, mSwapHeaderSize := 4\<rparr>) \<and>
            (erased_from (area s i) u \<longrightarrow>
               Init s = Some
                 (s\<lparr>mSwapSize := n, mSwapUsed := u, mSwapIndex := i, mSwapHeaderSize := 4\<rparr>)))"
proof (intro conjI allI impI)
  from assms(4) have n2: "n < 2 ^ 32" by simp
  {
    assume "\<not> SwapHeader_IsActive (otPlatFlashRead (area0 s) 0 4) \<and>
            \<not> SwapHeader_IsActive (otPlatFlashRead (area1 s) 0 4)"
    then show "Init s = Some (Wipe (s\<lparr>mSwapSize := n, mSwapIndex := 0\<rparr>))"
      using Init_wipes[OF assms(1) n2] by simp
  }
  fix i u
  assume h: "i = (if SwapHeader_IsActive (otPlatFlashRead (area0 s) 0 4) then 0 else 1) \<and>
            SwapHeader_IsActive (otPlatFlashRead (area s i) 0 4) \<and>
            parse (area s i) 4 u \<noteq> None \<and> u \<le> n \<and>
            (n < u + sizeof_RecordHeader \<or>
             \<not> (IsAddBeginSet (ReadHeader s i u) \<and> IsAddCompleteSet (ReadHeader s i u)))"
  define t where "t = s\<lparr>mSwapSize := n, mSwapUsed := u, mSwapIndex := i, mSwapHeaderSize := 4\<rparr>"
  note hs = h[unfolded sizeof_RecordHeader_def]
  note h' = hs[THEN conjunct1] hs[THEN conjunct2, THEN conjunct1]
    hs[THEN conjunct2, THEN conjunct2, THEN conjunct1]
    hs[THEN conjunct2, THEN conjunct2, THEN conjunct2, THEN conjunct1]
    hs[THEN conjunct2, THEN conjunct2, THEN conjunct2, THEN conjunct2]
  note a = Init_scanned[OF assms(1,2,3) n2 h', folded t_def]
  show "Init s = SanitizeFreeSpace t" by (rule a(1))
  assume e: "erased_from (area s i) u"
  have "mSwapSize t + 4 \<le> 2 ^ 32" using assms(4) by (simp add: t_def)
  from SanitizeFreeSpace_ok[OF a(2) this] obtain t' where
    t': "SanitizeFreeSpace t = Some t'"
    "erased_from (area t (mSwapIndex t)) (mSwapUsed t) \<and> mSwapUsed t mod 4 = 0 \<longrightarrow> t' = t"
    by blast
  have "area t (mSwapIndex t) = area s i" "mSwapUsed t = u" by (simp_all add: t_def area_def)
  with t'(2) e a(3) have "t' = t" by simp
  with t'(1) a(1) show "Init s = Some t" by simp
qed

theorem Init_selects_and_scans_witness:
  "length (area0 (Wipe blank)) = 64 \<and> length (area1 (Wipe blank)) = 64 \<and>
   SwapHeader_IsActive (otPlatFlashRead (area (Wipe blank) 0) 0 4) \<and>
   parse (area (Wipe blank) 0) 4 4 \<noteq> None \<and>
   \<not> (IsAddBeginSet (ReadHeader (Wipe blank) 0 4) \<and> IsAddCompleteSet (ReadHeader (Wipe blank) 0 4)) \<and>
   erased_from (area (Wipe blank) 0) 4 \<and>
   Init (Wipe blank) = Some (Wipe blank) \<and>
   length (area0 blank) = 64 \<and> length (area1 blank) = 64 \<and>
   \<not> SwapHeader_IsActive (otPlatFlashRead (area0 blank) 0 4) \<and>
   \<not> SwapHeader_IsActive (otPlatFlashRead (area1 blank) 0 4) \<and>
   Init blank = Some (Wipe blank)"
proof -
  have n: "(8 :: nat) \<le> 64" "(64 :: nat) + 4 \<le> 2 ^ 32" by simp_all
  note w = Init_selects_and_scans[OF wiped_flash(2,3) n]
  have a0: "area (Wipe blank) 0 = area0 (Wipe blank)" by (simp add: area_def)
  have act: "SwapHeader_IsActive (otPlatFlashRead (area (Wipe blank) 0) 0 4)"
    unfolding a0 by (rule wiped_active)
  have p: "parse (area (Wipe blank) 0) 4 4 \<noteq> None" by (simp add: wiped_parse)
  have st: "\<not> (IsAddBeginSet (ReadHeader (Wipe blank) 0 4) \<and> IsAddCompleteSet (ReadHeader (Wipe blank) 0 4))"
    using wiped_frontier_header by simp
  have er: "erased_from (area (Wipe blank) 0) 4"
    using wiped_blank(1) by (simp add: store_ok_def wiped_blank)
  have hyp: "0 = (if SwapHeader_IsActive (otPlatFlashRead (area0 (Wipe blank)) 0 4) then 0 else 1) \<and>
            SwapHeader_IsActive (otPlatFlashRead (area (Wipe blank) 0) 0 4) \<and>
            parse (area (Wipe blank) 0) 4 4 \<noteq> None \<and> (4 :: nat) \<le> 64 \<and>
            (64 < 4 + sizeof_RecordHeader \<or>
             \<not> (IsAddBeginSet (ReadHeader (Wipe blank) 0 4) \<and>
                IsAddCompleteSet (ReadHeader (Wipe blank) 0 4)))"
    using act p st wiped_active by simp
  note w1 = w[THEN conjunct2, rule_format, OF hyp]
  from w1[THEN conjunct2, rule_format, OF er]
  have i1: "Init (Wipe blank) = Some (Wipe blank)"
    by (simp only: wiped_fixed)
  have bl: "length (area0 blank) = 64" "length (area1 blank) = 64" by (simp_all add: blank_def)
  from Init_selects_and_scans[OF bl n, THEN conjunct1] blank_inactive
  have i2: "Init blank = Some (Wipe blank)" by simp
  from wiped_flash(2,3) act p st er i1 bl blank_inactive(1,2) i2 show ?thesis
    by (intro conjI)
qed

text \<open>
  C9: the frontier invariant.  On the blank device with two areas of 64 bytes, the store
  that \<open>Wipe\<close> leaves is consistent and satisfies the invariant.  \<open>Set\<close> of a value of
  60 bytes, whose record of 68 bytes is larger than the area, returns OK and leaves
  \<open>swapUsed = 72\<close> with \<open>swapSize = 64\<close>: after this public operation the frontier is
  past the end of the active area and the invariant does not hold.  \<open>Init\<close> on the
  flash this leaves does not repair it: the scan steps over the header of the record to
  offset 72, \<open>SanitizeFreeSpace\<close> finds nothing to read from there on, and \<open>Init\<close>
  returns with \<open>swapUsed = 72\<close> again.
\<close>

theorem Set_breaks_frontier_invariant:
  "store_ok (Wipe blank) \<and> frontier_invariant (Wipe blank) \<and>
   (\<exists>s' s''. Set (Wipe blank) (\<lambda>_. 0) 1 (replicate 60 0xAA) = Some (OT_ERROR_NONE, s') \<and>
         mSwapUsed s' = 72 \<and> mSwapSize s' = 64 \<and> \<not> mSwapUsed s' \<le> mSwapSize s' \<and>
         \<not> frontier_invariant s' \<and>
         Init s' = Some s'' \<and> mSwapUsed s'' = 72 \<and> mSwapSize s'' = 64 \<and>
         \<not> frontier_invariant s'')"
proof -
  let ?x = "new_record (\<lambda>_. 0) 1 True (replicate 60 (0xAA :: byte))"
  from oversized_flash[of "\<lambda>_. 0" 1 "0xAA"] obtain s' where
    s': "Set (Wipe blank) (\<lambda>_. 0) 1 (replicate 60 0xAA) = Some (OT_ERROR_NONE, s')"
    "mSwapUsed s' = 72" "mSwapSize s' = 64" "area1 s' = area1 (Wipe blank)"
    "area0 s' = le32 kActive @ enc (fst ?x, take 52 (snd ?x)) @ []" by blast
  have l: "length (area0 s') = 64" "length (area1 s') = 64"
    by (simp_all add: s'(4,5) wiped_flash(3) length_enc new_record_header padded_60)
  define s'' where "s'' = s'\<lparr>mSwapSize := 64, mSwapUsed := 72, mSwapIndex := 0, mSwapHeaderSize := 4\<rparr>"
  have i: "Init s' = Some s''"
    unfolding s''_def by (rule Init_past_the_area[OF s'(5) l])
  have v: "\<not> mSwapUsed s' \<le> mSwapSize s'" "\<not> frontier_invariant s'"
    "mSwapUsed s'' = 72" "mSwapSize s'' = 64" "\<not> frontier_invariant s''"
    by (simp_all add: frontier_invariant_def s'(2,3) s''_def)
  from s'(1,2,3) v i
  have "\<exists>s' s''. Set (Wipe blank) (\<lambda>_. 0) 1 (replicate 60 0xAA) = Some (OT_ERROR_NONE, s') \<and>
         mSwapUsed s' = 72 \<and> mSwapSize s' = 64 \<and> \<not> mSwapUsed s' \<le> mSwapSize s' \<and>
         \<not> frontier_invariant s' \<and>
         Init s' = Some s'' \<and> mSwapUsed s'' = 72 \<and> mSwapSize s'' = 64 \<and>
         \<not> frontier_invariant s''" by blast
  with wiped_blank(1) store_ok_frontier[OF wiped_blank(1)] show ?thesis
    by (intro conjI)
qed

end
